theory Spec2Isabelle
  imports Main
begin

section \<open>Regular expressions of the rule engine and of the script\<close>

text \<open>
  The service worker hands regular expressions to two engines: the browser's
  declarativeNetRequest matcher (\<open>regexFilter\<close>, RE2 syntax) and the script's own
  \<open>RegExp.test\<close>. Only a small fragment occurs in \<open>service_worker.js\<close>: literal
  characters, \<open>.\<close>, negated classes \<open>[^...]\<close>, the repetitions \<open>+\<close> and \<open>*\<close> on a single
  character matcher, \<open>?\<close>, capturing groups and the anchors \<open>^\<close> and \<open>$\<close>. The abstract
  syntax below covers that fragment; \<open>run\<close> is a backtracking matcher that lists the
  possible continuations in priority order (greedy first), so that its head is the
  leftmost-first match both engines report.
\<close>

datatype atom = Lit char | Dot | NoneOf "char list"

datatype rx =
    Eps
  | Atom atom
  | Seq rx rx
  | Opt rx
  | Plus atom
  | Star atom
  | Grp nat rx
  | Bol
  | Eol

type_synonym caps = "(nat \<times> string) list"

text \<open>A matcher state: the offset reached, the input still to read, the captures so far.\<close>

type_synonym mstate = "nat \<times> string \<times> caps"

definition to_lower :: "char \<Rightarrow> char" where
  "to_lower c =
     (case map_of (zip ''ABCDEFGHIJKLMNOPQRSTUVWXYZ'' ''abcdefghijklmnopqrstuvwxyz'') c of
        Some l \<Rightarrow> l
      | None \<Rightarrow> c)"

text \<open>
  \<open>atom_ok ci a c\<close>: does the one-character matcher \<open>a\<close> accept \<open>c\<close>; \<open>ci\<close> is the
  \<open>i\<close> flag. \<open>.\<close> accepts every character but the line feed.
\<close>

fun atom_ok :: "bool \<Rightarrow> atom \<Rightarrow> char \<Rightarrow> bool" where
  "atom_ok ci (Lit x) c = (if ci then to_lower c = to_lower x else c = x)"
| "atom_ok ci Dot c = (c \<noteq> CHR 0x0A)"
| "atom_ok ci (NoneOf xs) c =
     (if ci then to_lower c \<notin> set (map to_lower xs) else c \<notin> set xs)"

text \<open>Greedy repetition of a one-character matcher, at least \<open>lo\<close> times: longest first.\<close>

fun reps :: "bool \<Rightarrow> atom \<Rightarrow> nat \<Rightarrow> mstate \<Rightarrow> mstate list" where
  "reps ci a lo (p, s, g) =
     map (\<lambda>k. (p + k, drop k s, g))
       (rev [lo ..< Suc (length (takeWhile (atom_ok ci a) s))])"

fun run :: "bool \<Rightarrow> rx \<Rightarrow> mstate \<Rightarrow> mstate list" where
  "run ci Eps st = [st]"
| "run ci (Atom a) (p, s, g) =
     (case s of
        [] \<Rightarrow> []
      | c # cs \<Rightarrow> if atom_ok ci a c then [(Suc p, cs, g)] else [])"
| "run ci (Seq r1 r2) st = concat (map (run ci r2) (run ci r1 st))"
| "run ci (Opt r) st = run ci r st @ [st]"
| "run ci (Plus a) st = reps ci a 1 st"
| "run ci (Star a) st = reps ci a 0 st"
| "run ci (Grp i r) (p, s, g) =
     map (\<lambda>(p', s', g'). (p', s', (i, take (p' - p) s) # g')) (run ci r (p, s, g))"
| "run ci Bol (p, s, g) = (if p = 0 then [(p, s, g)] else [])"
| "run ci Eol (p, s, g) = (if s = [] then [(p, s, g)] else [])"

text \<open>
  An unanchored search: the first offset at which the expression matches, and there the
  first continuation. The result is the start offset and the final matcher state.
\<close>

fun search :: "bool \<Rightarrow> rx \<Rightarrow> nat \<Rightarrow> string \<Rightarrow> (nat \<times> mstate) option" where
  "search ci r p [] = (case run ci r (p, [], []) of [] \<Rightarrow> None | m # _ \<Rightarrow> Some (p, m))"
| "search ci r p (c # s) =
     (case run ci r (p, c # s, []) of
        [] \<Rightarrow> search ci r (Suc p) s
      | m # _ \<Rightarrow> Some (p, m))"

definition exec :: "bool \<Rightarrow> rx \<Rightarrow> string \<Rightarrow> (nat \<times> mstate) option" where
  "exec ci r s = search ci r 0 s"

definition test :: "bool \<Rightarrow> rx \<Rightarrow> string \<Rightarrow> bool" where
  "test ci r s = (exec ci r s \<noteq> None)"

text \<open>Concatenation of a list of expressions, and a literal string.\<close>

definition cat :: "rx list \<Rightarrow> rx" where
  "cat rs = foldr Seq rs Eps"

definition lit :: "string \<Rightarrow> rx" where
  "lit w = cat (map (\<lambda>c. Atom (Lit c)) w)"

section \<open>Constants of the service worker\<close>

definition DEFAULT_ADDRESS :: string where
  "DEFAULT_ADDRESS = ''http://localhost:9595''"

definition HEALTH_PATH :: string where
  "HEALTH_PATH = ''/stat/''"

definition AMAZON_ADS_BLOCK :: nat where "AMAZON_ADS_BLOCK = 1003"
definition LIVE_ALLOW :: nat where "LIVE_ALLOW = 3001"
definition VOD_ALLOW :: nat where "VOD_ALLOW = 3002"
definition LIVE_REDIRECT :: nat where "LIVE_REDIRECT = 2001"
definition VOD_REDIRECT :: nat where "VOD_REDIRECT = 2002"

section \<open>normalizeBase\<close>

text \<open>The expression \<open>/^https?:/i\<close> of \<open>normalizeBase\<close>.\<close>

definition scheme_rx :: rx where
  "scheme_rx = cat [Bol, lit ''http'', Opt (Atom (Lit (CHR ''s''))), lit '':'']"

definition endsWith :: "string \<Rightarrow> char \<Rightarrow> bool" where
  "endsWith s c = (s \<noteq> [] \<and> last s = c)"

text \<open>
  \<open>input || DEFAULT_ADDRESS\<close> takes the default for every falsy input: \<open>undefined\<close>
  (here \<open>None\<close>) and the empty string. \<open>base.slice(0, -1)\<close> drops the last character.
\<close>

definition normalizeBase :: "string option \<Rightarrow> string" where
  "normalizeBase input =
     (let base0 = (case input of
                     None \<Rightarrow> DEFAULT_ADDRESS
                   | Some s \<Rightarrow> if s = [] then DEFAULT_ADDRESS else s);
          base1 = (if \<not> test True scheme_rx base0 then ''http://'' @ base0 else base0)
      in if endsWith base1 (CHR ''/'') then butlast base1 else base1)"

text \<open>
  What \<open>/^https?:/i\<close> accepts, read off the first six characters: used to reason about
  \<open>normalizeBase\<close> without running the matcher.
\<close>

fun has_scheme :: "string \<Rightarrow> bool" where
  "has_scheme (a # b # c # d # e # r) =
     (to_lower a = CHR ''h'' \<and> to_lower b = CHR ''t'' \<and> to_lower c = CHR ''t'' \<and>
      to_lower d = CHR ''p'' \<and>
      (e = CHR '':'' \<or>
       (to_lower e = CHR ''s'' \<and> (case r of [] \<Rightarrow> False | f # _ \<Rightarrow> f = CHR '':''))))"
| "has_scheme _ = False"

definition norm_ch :: "bool \<Rightarrow> char \<Rightarrow> char" where
  "norm_ch ci c = (if ci then to_lower c else c)"

text \<open>
  Two strings are the same text for the matcher: equal, or with the \<open>i\<close> flag equal up
  to the case of letters.
\<close>

definition same_text :: "bool \<Rightarrow> string \<Rightarrow> string \<Rightarrow> bool" where
  "same_text ci a w = (map (norm_ch ci) a = map (norm_ch ci) w)"

section \<open>Rules and the rule store of the browser\<close>

datatype resourceType =
    main_frame | sub_frame | stylesheet | script | image | font | object
  | xmlhttprequest | ping | csp_report | media | websocket | other

text \<open>A redirect action carries its \<open>regexSubstitution\<close>.\<close>

datatype action = Redirect string | Allow | Block

text \<open>
  A rule as the engine holds it. \<open>isUrlFilterCaseSensitive\<close> and \<open>resourceTypes\<close> are
  optional: \<open>None\<close> stands for a field the rule object does not set. No rule of the
  worker sets \<open>isUrlFilterCaseSensitive\<close>.
\<close>

record rule =
  rule_id :: nat
  priority :: nat
  rule_action :: action
  regexFilter :: rx
  isUrlFilterCaseSensitive :: "bool option"
  resourceTypes :: "resourceType list option"

type_synonym rulemap = "nat \<rightharpoonup> rule"

text \<open>
  \<open>^https://usher\.ttvnw\.net/api/channel/hls/([^/?]+)\.m3u8(\?.*)?$\<close> and
  \<open>^https://usher\.ttvnw\.net/vod/([^/?]+)\.m3u8(\?.*)?$\<close>, shared by the redirect and
  the allow rules; \<open>^https?://([^.]+\.)?amazon-adsystem\.com/.*\<close> of the ad-block rule.
  \<open>lit\<close> stands for the escaped, literal reading of its characters.
\<close>

definition live_rx :: rx where
  "live_rx = cat [Bol, lit ''https://usher.ttvnw.net/api/channel/hls/'',
                  Grp 1 (Plus (NoneOf ''/?'')), lit ''.m3u8'',
                  Opt (Grp 2 (cat [lit ''?'', Star Dot])), Eol]"

definition vod_rx :: rx where
  "vod_rx = cat [Bol, lit ''https://usher.ttvnw.net/vod/'',
                 Grp 1 (Plus (NoneOf ''/?'')), lit ''.m3u8'',
                 Opt (Grp 2 (cat [lit ''?'', Star Dot])), Eol]"

definition ads_rx :: rx where
  "ads_rx = cat [Bol, lit ''http'', Opt (Atom (Lit (CHR ''s''))), lit ''://'',
                 Opt (Grp 1 (cat [Plus (NoneOf ''.''), lit ''.''])),
                 lit ''amazon-adsystem.com/'', Star Dot]"

text \<open>\<open>/^https:\/\/([^.]+\.)?twitch\.tv\//\<close> and \<open>/^https:\/\/usher\.ttvnw\.net\//\<close>.\<close>

definition twitch_rx :: rx where
  "twitch_rx = cat [Bol, lit ''https://'',
                    Opt (Grp 1 (cat [Plus (NoneOf ''.''), lit ''.''])), lit ''twitch.tv/'']"

definition usher_rx :: rx where
  "usher_rx = cat [Bol, lit ''https://usher.ttvnw.net/'']"

definition hls_types :: "resourceType list" where
  "hls_types = [xmlhttprequest, media, other]"

text \<open>The substitution strings are \<open>`${base}/live/\\1\\2`\<close> and \<open>`${base}/vod/\\1\\2`\<close>.\<close>

definition buildRedirectSessionRules :: "string \<Rightarrow> rule list" where
  "buildRedirectSessionRules baseAddress =
     (let base = normalizeBase (Some baseAddress);
          liveRule = \<lparr>rule_id = LIVE_REDIRECT, priority = 1,
                      rule_action = Redirect (base @ ''/live/'' @ [CHR 0x5C, CHR ''1'', CHR 0x5C, CHR ''2'']),
                      regexFilter = live_rx, isUrlFilterCaseSensitive = None,
                      resourceTypes = Some hls_types\<rparr>;
          vodRule = \<lparr>rule_id = VOD_REDIRECT, priority = 1,
                     rule_action = Redirect (base @ ''/vod/'' @ [CHR 0x5C, CHR ''1'', CHR 0x5C, CHR ''2'']),
                     regexFilter = vod_rx, isUrlFilterCaseSensitive = None,
                     resourceTypes = Some hls_types\<rparr>
      in [liveRule, vodRule])"

definition adsBlockRule :: rule where
  "adsBlockRule = \<lparr>rule_id = AMAZON_ADS_BLOCK, priority = 1, rule_action = Block,
                    regexFilter = ads_rx, isUrlFilterCaseSensitive = None,
                    resourceTypes = None\<rparr>"

definition liveAllow :: rule where
  "liveAllow = \<lparr>rule_id = LIVE_ALLOW, priority = 100, rule_action = Allow,
                 regexFilter = live_rx, isUrlFilterCaseSensitive = None,
                 resourceTypes = Some hls_types\<rparr>"

definition vodAllow :: rule where
  "vodAllow = \<lparr>rule_id = VOD_ALLOW, priority = 100, rule_action = Allow,
                regexFilter = vod_rx, isUrlFilterCaseSensitive = None,
                resourceTypes = Some hls_types\<rparr>"

text \<open>
  The browser's \<open>updateDynamicRules\<close>/\<open>updateSessionRules\<close>: the listed identifiers are
  removed, then the rules are added, in one step.
\<close>

definition replace_rules :: "rulemap \<Rightarrow> nat list \<Rightarrow> rule list \<Rightarrow> rulemap" where
  "replace_rules m removeRuleIds addRules =
     foldl (\<lambda>m r. m(rule_id r \<mapsto> r)) (foldl (\<lambda>m i. m(i := None)) m removeRuleIds) addRules"

section \<open>The environment and the state of the worker\<close>

datatype scope = Dynamic | Session

datatype json =
    JNull | JBool bool | JNum int | JStr string | JArr "json list" | JObj "(string \<times> json) list"

text \<open>\<open>res.json()\<close> either rejects or resolves to a value.\<close>

datatype body = BodyUnparseable | BodyJson json

text \<open>\<open>fetch\<close> either throws or resolves to a response with a status and a body.\<close>

datatype fetch_result = FetchThrows | Response nat body

record tab =
  tab_id :: "int option"
  tab_url :: "string option"

record ctx =
  tabId :: int
  url :: string

text \<open>
  Everything the worker asks of the browser and the network during one handler:
  \<^item> \<open>storageGet\<close>: \<open>chrome.storage.sync.get(["address"])\<close>; \<open>None\<close> when it throws,
    \<open>Some None\<close> when the key is absent;
  \<^item> \<open>fetch\<close>: the response to a GET of a URL;
  \<^item> \<open>accepts\<close>: whether the rule engine accepts an update call (it rejects otherwise);
  \<^item> \<open>queryTabs\<close>: \<open>chrome.tabs.query({url: ["https://*.twitch.tv/*"]})\<close>, \<open>None\<close> when it throws;
  \<^item> \<open>delivers\<close>: whether \<open>chrome.tabs.sendMessage\<close> to a tab resolves.
\<close>

record env =
  storageGet :: "string option option"
  fetch :: "string \<Rightarrow> fetch_result"
  accepts :: "scope \<Rightarrow> nat list \<Rightarrow> rule list \<Rightarrow> bool"
  queryTabs :: "tab list option"
  delivers :: "int \<Rightarrow> bool"

type_synonym payload = "bool \<times> string"

text \<open>A \<open>sendMessage\<close> call: the tab, the payload, and the delay in ms before the call.\<close>

type_synonym send = "int \<times> payload \<times> nat"

text \<open>
  The state: the two rule stores of the browser and \<open>lastRelayOnline\<close> (\<open>None\<close> is
  \<open>null\<close>), and four logs that the code does not hold but its effects are read from:
  the URLs fetched, the calls of \<open>sendOfflineMessage\<close> with their argument, the
  \<open>sendMessage\<close> calls, and the content of the rule stores after each update call.
\<close>

record state =
  dynamicRules :: rulemap
  sessionRules :: rulemap
  lastRelayOnline :: "bool option"
  fetched :: "string list"
  dispatched :: "ctx option list"
  sent :: "send list"
  snapshots :: "(rulemap \<times> rulemap) list"

definition snapshot :: "state \<Rightarrow> state" where
  "snapshot st = st\<lparr>snapshots := snapshots st @ [(dynamicRules st, sessionRules st)]\<rparr>"

text \<open>
  The two update calls, each inside the \<open>try\<close>/\<open>catch\<close> every caller wraps it in: a
  rejected call leaves the store as it was (the error goes to the console).
\<close>

definition updateDynamicRules :: "env \<Rightarrow> nat list \<Rightarrow> rule list \<Rightarrow> state \<Rightarrow> state" where
  "updateDynamicRules e removeRuleIds addRules st =
     snapshot (if accepts e Dynamic removeRuleIds addRules
               then st\<lparr>dynamicRules := replace_rules (dynamicRules st) removeRuleIds addRules\<rparr>
               else st)"

definition updateSessionRules :: "env \<Rightarrow> nat list \<Rightarrow> rule list \<Rightarrow> state \<Rightarrow> state" where
  "updateSessionRules e removeRuleIds addRules st =
     snapshot (if accepts e Session removeRuleIds addRules
               then st\<lparr>sessionRules := replace_rules (sessionRules st) removeRuleIds addRules\<rparr>
               else st)"

section \<open>Installing and removing the rules\<close>

definition addOrUpdateAdsBlockDynamicRule :: "env \<Rightarrow> state \<Rightarrow> state" where
  "addOrUpdateAdsBlockDynamicRule e st =
     updateDynamicRules e [AMAZON_ADS_BLOCK] [adsBlockRule] st"

definition setAllowBypassRules :: "env \<Rightarrow> bool \<Rightarrow> state \<Rightarrow> state" where
  "setAllowBypassRules e enabled st =
     (let removeRuleIds = [LIVE_ALLOW, VOD_ALLOW];
          addRules = (if enabled then [liveAllow, vodAllow] else [])
      in updateDynamicRules e removeRuleIds addRules st)"

definition addRedirectSessionRules :: "env \<Rightarrow> string \<Rightarrow> state \<Rightarrow> state" where
  "addRedirectSessionRules e baseAddress st =
     (let rules = buildRedirectSessionRules baseAddress
      in updateSessionRules e [LIVE_REDIRECT, VOD_REDIRECT] rules st)"

definition removeRedirectSessionRules :: "env \<Rightarrow> state \<Rightarrow> state" where
  "removeRedirectSessionRules e st =
     updateSessionRules e [LIVE_REDIRECT, VOD_REDIRECT] [] st"

definition removeOldDynamicRedirectRules :: "env \<Rightarrow> state \<Rightarrow> state" where
  "removeOldDynamicRedirectRules e st = updateDynamicRules e [1001, 1002] [] st"

section \<open>The health probe\<close>

text \<open>
  \<open>data?.online\<close>: \<open>undefined\<close> (here \<open>None\<close>) on \<open>null\<close>, the property of an object, and
  \<open>undefined\<close> on every other value, none of which has a property of that name.
\<close>

fun get_online :: "json \<Rightarrow> json option" where
  "get_online (JObj kvs) = map_of kvs ''online''"
| "get_online _ = None"

definition res_ok :: "nat \<Rightarrow> bool" where
  "res_ok status = (200 \<le> status \<and> status \<le> 299)"

text \<open>The classification of \<open>isRelayOnline\<close>, branch by branch.\<close>

fun classify :: "fetch_result \<Rightarrow> bool" where
  "classify FetchThrows = False"
| "classify (Response status b) =
     (if \<not> res_ok status then False
      else (case b of
              BodyUnparseable \<Rightarrow> True
            | BodyJson data \<Rightarrow>
                (case get_online data of
                   Some (JBool online) \<Rightarrow> online
                 | _ \<Rightarrow> True)))"

definition isRelayOnline :: "env \<Rightarrow> string \<Rightarrow> state \<Rightarrow> bool \<times> state" where
  "isRelayOnline e address st =
     (let base = normalizeBase (Some address);
          url = base @ HEALTH_PATH
      in (classify (fetch e url), st\<lparr>fetched := fetched st @ [url]\<rparr>))"

section \<open>The offline notification\<close>

definition offline_payload :: payload where
  "offline_payload = (False, ''Proxy error, you will see ads. Is the server running?'')"

text \<open>The loop over the tabs of the broadcast: a failed delivery is ignored.\<close>

fun broadcast_sends :: "tab list \<Rightarrow> send list" where
  "broadcast_sends [] = []"
| "broadcast_sends (t # ts) =
     (case (tab_id t, tab_url t) of
        (Some i, Some u) \<Rightarrow>
          if i = 0 then broadcast_sends ts else (i, offline_payload, 0) # broadcast_sends ts
      | _ \<Rightarrow> broadcast_sends ts)"

text \<open>
  \<open>sendOfflineMessage\<close>. With a context whose URL is not a Twitch page it returns at
  once; with a Twitch context it sends to that tab, and once more 500 ms later when the
  first call rejects; without a context it sends to every tab the query returns.
\<close>

definition sendOfflineMessage :: "env \<Rightarrow> ctx option \<Rightarrow> state \<Rightarrow> state" where
  "sendOfflineMessage e context st0 =
     (let st = st0\<lparr>dispatched := dispatched st0 @ [context]\<rparr>
      in case context of
           Some c \<Rightarrow>
             if \<not> test False twitch_rx (url c) then st
             else if delivers e (tabId c)
               then st\<lparr>sent := sent st @ [(tabId c, offline_payload, 0)]\<rparr>
               else st\<lparr>sent := sent st @ [(tabId c, offline_payload, 0),
                                             (tabId c, offline_payload, 500)]\<rparr>
         | None \<Rightarrow>
             (case queryTabs e of
                None \<Rightarrow> st
              | Some tabs \<Rightarrow> st\<lparr>sent := sent st @ broadcast_sends tabs\<rparr>))"

section \<open>Applying an observed state\<close>

definition applyOnlineState :: "env \<Rightarrow> bool \<Rightarrow> string \<Rightarrow> ctx option \<Rightarrow> state \<Rightarrow> state" where
  "applyOnlineState e online address context st =
     (let st' =
        (if online then
           addRedirectSessionRules e address (setAllowBypassRules e False st)
         else
           (let st1 = setAllowBypassRules e True st
            in if lastRelayOnline st1 \<noteq> Some False then sendOfflineMessage e context st1
               else st1))
      in st'\<lparr>lastRelayOnline := Some online\<rparr>)"

section \<open>The handlers\<close>

text \<open>\<open>const { address = DEFAULT_ADDRESS } = ...\<close>: the default stands in for an absent key.\<close>

definition address_or_default :: "string option \<Rightarrow> string" where
  "address_or_default a = (case a of None \<Rightarrow> DEFAULT_ADDRESS | Some x \<Rightarrow> x)"

definition applyRulesFromStorage :: "env \<Rightarrow> state \<Rightarrow> state" where
  "applyRulesFromStorage e st =
     (case storageGet e of
        None \<Rightarrow> st
      | Some a \<Rightarrow>
          (let address = address_or_default a;
               st1 = addOrUpdateAdsBlockDynamicRule e st;
               st2 = removeRedirectSessionRules e st1;
               (online, st3) = isRelayOnline e address st2
           in applyOnlineState e online address None st3))"

definition HEALTHCHECK_ALARM :: string where
  "HEALTHCHECK_ALARM = ''relay-healthcheck''"

definition onAlarm :: "env \<Rightarrow> string \<Rightarrow> state \<Rightarrow> state" where
  "onAlarm e name st =
     (if name \<noteq> HEALTHCHECK_ALARM then st
      else case storageGet e of
             None \<Rightarrow> st
           | Some a \<Rightarrow>
               (let address = address_or_default a;
                    (online, st1) = isRelayOnline e address st;
                    st2 = removeRedirectSessionRules e st1
                in applyOnlineState e online address None st2))"

definition refreshRulesNow :: "env \<Rightarrow> ctx option \<Rightarrow> state \<Rightarrow> state" where
  "refreshRulesNow e context st =
     (case storageGet e of
        None \<Rightarrow> st
      | Some a \<Rightarrow>
          (let address = address_or_default a;
               (online, st1) = isRelayOnline e address st;
               st2 = removeRedirectSessionRules e st1
           in applyOnlineState e online address context st2))"

definition isTwitchNavigation :: "string \<Rightarrow> bool" where
  "isTwitchNavigation u = (test False twitch_rx u \<or> test False usher_rx u)"

text \<open>The two \<open>webNavigation\<close> listeners have the same body.\<close>

definition onNavigation :: "env \<Rightarrow> int \<Rightarrow> int \<Rightarrow> string \<Rightarrow> state \<Rightarrow> state" where
  "onNavigation e frameId tab u st =
     (if frameId \<noteq> 0 then st
      else if \<not> isTwitchNavigation u then st
      else refreshRulesNow e (Some \<lparr>tabId = tab, url = u\<rparr>) st)"

text \<open>
  The \<open>storage.onChanged\<close> listener: \<open>change\<close> is \<open>changes.address\<close> (\<open>None\<close> when the
  address did not change), holding \<open>newValue\<close> (\<open>None\<close> when the key was removed).
\<close>

definition onStorageChanged :: "env \<Rightarrow> string \<Rightarrow> string option option \<Rightarrow> state \<Rightarrow> state" where
  "onStorageChanged e area change st =
     (case change of
        None \<Rightarrow> st
      | Some newValue \<Rightarrow>
          if area \<noteq> ''sync'' then st
          else
            (let next = (case newValue of
                           None \<Rightarrow> DEFAULT_ADDRESS
                         | Some v \<Rightarrow> if v = [] then DEFAULT_ADDRESS else v);
                 (online, st1) = isRelayOnline e next st;
                 st2 = removeRedirectSessionRules e st1
             in applyOnlineState e online next None st2))"

text \<open>The \<open>tabs.onUpdated\<close> listener, with \<open>changeInfo.status\<close> and \<open>tab.url\<close>.\<close>

definition onTabUpdated :: "env \<Rightarrow> int \<Rightarrow> string option \<Rightarrow> string option \<Rightarrow> state \<Rightarrow> state" where
  "onTabUpdated e tab status tabUrl st =
     (if status \<noteq> Some ''complete'' then st
      else
        (let u = (case tabUrl of Some x \<Rightarrow> x | None \<Rightarrow> [])
         in if \<not> isTwitchNavigation u then st
            else if lastRelayOnline st = Some False
              then sendOfflineMessage e (Some \<lparr>tabId = tab, url = u\<rparr>) st
              else st))"

text \<open>The \<open>onInstalled\<close> and \<open>onStartup\<close> listeners (creating the alarm has no effect here).\<close>

definition onStartup :: "env \<Rightarrow> state \<Rightarrow> state" where
  "onStartup e st = applyRulesFromStorage e (removeOldDynamicRedirectRules e st)"

text \<open>
  The four ways a reconcile is started: at startup or installation, by the alarm, by a
  change of the stored address (with the new value), by a navigation (with its tab and
  URL, already checked by the listener).
\<close>

datatype trigger = Startup | AlarmTick | ConfigChange "string option" | Navigation ctx

fun reconcile :: "env \<Rightarrow> trigger \<Rightarrow> state \<Rightarrow> state" where
  "reconcile e Startup st = applyRulesFromStorage e st"
| "reconcile e AlarmTick st = onAlarm e HEALTHCHECK_ALARM st"
| "reconcile e (ConfigChange newValue) st = onStorageChanged e ''sync'' (Some newValue) st"
| "reconcile e (Navigation c) st = refreshRulesNow e (Some c) st"

text \<open>The reconciles of a list of triggers, one after the other, each in its environment.\<close>

fun reconciles :: "(env \<times> trigger) list \<Rightarrow> state \<Rightarrow> state" where
  "reconciles [] st = st"
| "reconciles ((e, t) # rest) st = reconciles rest (reconcile e t st)"

text \<open>The address a reconcile works with, when it has one, and the health it observes.\<close>

fun address_of :: "env \<Rightarrow> trigger \<Rightarrow> string option" where
  "address_of e (ConfigChange newValue) =
     Some (case newValue of None \<Rightarrow> DEFAULT_ADDRESS
           | Some v \<Rightarrow> if v = [] then DEFAULT_ADDRESS else v)"
| "address_of e _ = map_option address_or_default (storageGet e)"

definition observed :: "env \<Rightarrow> trigger \<Rightarrow> bool option" where
  "observed e t =
     map_option (\<lambda>a. classify (fetch e (normalizeBase (Some a) @ HEALTH_PATH))) (address_of e t)"

text \<open>The context a reconcile passes on to the notification.\<close>

fun context_of :: "trigger \<Rightarrow> ctx option" where
  "context_of (Navigation c) = Some c"
| "context_of _ = None"

section \<open>Routes and the two categories of session rules\<close>

datatype route = Live | Vod

fun redirect_id :: "route \<Rightarrow> nat" where
  "redirect_id Live = LIVE_REDIRECT"
| "redirect_id Vod = VOD_REDIRECT"

fun allow_id :: "route \<Rightarrow> nat" where
  "allow_id Live = LIVE_ALLOW"
| "allow_id Vod = VOD_ALLOW"

text \<open>A category is active for a route when the store holds a rule under its identifier.\<close>

definition redirect_active :: "rulemap \<times> rulemap \<Rightarrow> route \<Rightarrow> bool" where
  "redirect_active stores r = (snd stores (redirect_id r) \<noteq> None)"

definition allow_active :: "rulemap \<times> rulemap \<Rightarrow> route \<Rightarrow> bool" where
  "allow_active stores r = (fst stores (allow_id r) \<noteq> None)"

definition stores :: "state \<Rightarrow> rulemap \<times> rulemap" where
  "stores st = (dynamicRules st, sessionRules st)"

definition exactly_one :: "rulemap \<times> rulemap \<Rightarrow> route \<Rightarrow> bool" where
  "exactly_one m r = (redirect_active m r \<noteq> allow_active m r)"

section \<open>What an installed rule does to a request\<close>

text \<open>
  The rule engine tests \<open>regexFilter\<close> against the request URL, without regard to the case
  of letters unless the rule sets \<open>isUrlFilterCaseSensitive\<close> to true (the default of the
  field is false), and the resource type against \<open>resourceTypes\<close> (every type but
  \<open>main_frame\<close> when the rule lists none).
\<close>

definition case_insensitive :: "rule \<Rightarrow> bool" where
  "case_insensitive r = (isUrlFilterCaseSensitive r \<noteq> Some True)"

definition url_matches :: "rule \<Rightarrow> string \<Rightarrow> bool" where
  "url_matches r u = test (case_insensitive r) (regexFilter r) u"

definition request_matches :: "rule \<Rightarrow> string \<Rightarrow> resourceType \<Rightarrow> bool" where
  "request_matches r u ty =
     (url_matches r u \<and>
      (case resourceTypes r of None \<Rightarrow> ty \<noteq> main_frame | Some tys \<Rightarrow> ty \<in> set tys))"

definition group :: "caps \<Rightarrow> nat \<Rightarrow> string" where
  "group g n = (case map_of g n of None \<Rightarrow> [] | Some w \<Rightarrow> w)"

definition digit_of :: "char \<Rightarrow> nat option" where
  "digit_of c = map_of (zip ''0123456789'' [0, 1, 2, 3, 4, 5, 6, 7, 8, 9]) c"

text \<open>The number of capturing groups of an expression.\<close>

fun ngroups :: "rx \<Rightarrow> nat" where
  "ngroups Eps = 0"
| "ngroups (Atom a) = 0"
| "ngroups (Seq r1 r2) = ngroups r1 + ngroups r2"
| "ngroups (Opt r) = ngroups r"
| "ngroups (Plus a) = 0"
| "ngroups (Star a) = 0"
| "ngroups (Grp i r) = Suc (ngroups r)"
| "ngroups Bol = 0"
| "ngroups Eol = 0"

text \<open>
  A substitution string for a filter with \<open>k\<close> groups is copied, but for a backslash:
  with a digit it stands for that group (group 0 is the whole match), doubled it stands
  for itself. A backslash anywhere else, or with the number of a group the filter does
  not have, makes the string invalid (\<open>None\<close>): the engine does not take such a rule.
\<close>

fun rewrite :: "nat \<Rightarrow> string \<Rightarrow> (nat \<Rightarrow> string) \<Rightarrow> string option" where
  "rewrite k [] gs = Some []"
| "rewrite k [c] gs = (if c = CHR 0x5C then None else Some [c])"
| "rewrite k (c # d # cs) gs =
     (if c = CHR 0x5C then
        (case digit_of d of
           Some n \<Rightarrow> if n \<le> k then map_option (\<lambda>w. gs n @ w) (rewrite k cs gs) else None
         | None \<Rightarrow> if d = CHR 0x5C then map_option (\<lambda>w. d # w) (rewrite k cs gs) else None)
      else map_option (\<lambda>w. c # w) (rewrite k (d # cs) gs))"

text \<open>
  The URL a redirect rule sends a request to: the first match of the filter in the URL
  is replaced by the rewritten substitution string.
\<close>

definition redirect_url :: "rule \<Rightarrow> string \<Rightarrow> string option" where
  "redirect_url r u =
     (case rule_action r of
        Redirect subst \<Rightarrow>
          (case exec (case_insensitive r) (regexFilter r) u of
             None \<Rightarrow> None
           | Some (start, (stop, rest, g)) \<Rightarrow>
               map_option (\<lambda>w. take start u @ w @ rest)
                 (rewrite (ngroups (regexFilter r)) subst
                    (\<lambda>n. if n = 0 then take (stop - start) (drop start u) else group g n)))
      | _ \<Rightarrow> None)"

text \<open>The concrete syntax of an expression, to compare with the source text.\<close>

definition specials :: "char list" where
  "specials = CHR 0x5C # ''.?+*()[]^$|{}''"

fun show_atom :: "atom \<Rightarrow> string" where
  "show_atom (Lit c) = (if c \<in> set specials then [CHR 0x5C, c] else [c])"
| "show_atom Dot = ''.''"
| "show_atom (NoneOf xs) = ''[^'' @ xs @ '']''"

fun show_rx :: "rx \<Rightarrow> string" where
  "show_rx Eps = []"
| "show_rx (Atom a) = show_atom a"
| "show_rx (Seq r1 r2) = show_rx r1 @ show_rx r2"
| "show_rx (Opt r) = show_rx r @ ''?''"
| "show_rx (Plus a) = show_atom a @ ''+''"
| "show_rx (Star a) = show_atom a @ ''*''"
| "show_rx (Grp i r) = ''('' @ show_rx r @ '')''"
| "show_rx Bol = ''^''"
| "show_rx Eol = ''$''"

section \<open>The URL forms the specification names\<close>

text \<open>
  A playlist identifier is a non-empty string without \<open>/\<close> and \<open>?\<close>; a query is empty or
  a \<open>?\<close> followed by characters other than the line feed; a host label is a non-empty
  string without a dot.
\<close>

definition is_id :: "string \<Rightarrow> bool" where
  "is_id w = (w \<noteq> [] \<and> CHR ''/'' \<notin> set w \<and> CHR ''?'' \<notin> set w)"

definition is_query :: "string \<Rightarrow> bool" where
  "is_query q = (case q of [] \<Rightarrow> True | c # t \<Rightarrow> c = CHR ''?'' \<and> CHR 0x0A \<notin> set t)"

definition is_label :: "string \<Rightarrow> bool" where
  "is_label w = (w \<noteq> [] \<and> CHR ''.'' \<notin> set w)"

definition live_url :: "string \<Rightarrow> string \<Rightarrow> string" where
  "live_url ident q = ''https://usher.ttvnw.net/api/channel/hls/'' @ ident @ ''.m3u8'' @ q"

definition twitch_url :: "string \<Rightarrow> string \<Rightarrow> string" where
  "twitch_url sub path = ''https://'' @ sub @ ''twitch.tv/'' @ path"

section \<open>A fresh worker, sample environments, and the notifications the specification expects\<close>

definition init :: state where
  "init = \<lparr>dynamicRules = Map.empty, sessionRules = Map.empty, lastRelayOnline = None,
            fetched = [], dispatched = [], sent = [], snapshots = []\<rparr>"

text \<open>
  An environment in which the stored address is \<open>example.com:9595\<close>, every GET has the
  given outcome, every rule update is accepted, and no Twitch tab is open.
\<close>

definition world :: "fetch_result \<Rightarrow> env" where
  "world r = \<lparr>storageGet = Some (Some ''example.com:9595''), fetch = (\<lambda>u. r),
               accepts = (\<lambda>sc removeRuleIds addRules. True), queryTabs = Some [],
               delivers = (\<lambda>i. True)\<rparr>"

definition relay_up :: fetch_result where
  "relay_up = Response 200 (BodyJson (JObj [(''online'', JBool True)]))"

definition relay_down :: fetch_result where
  "relay_down = FetchThrows"

text \<open>
  The notifications the specification expects of a sequence of reconciles that starts
  with the held state \<open>held\<close>: one for each observation of Offline made while the held
  state is not Offline. A reconcile that observes nothing leaves the held state alone.
\<close>

fun spec_notifications :: "(env \<times> trigger) list \<Rightarrow> bool option \<Rightarrow> ctx option list" where
  "spec_notifications [] held = []"
| "spec_notifications ((e, t) # rest) held =
     (case observed e t of
        None \<Rightarrow> spec_notifications rest held
      | Some online \<Rightarrow>
          (if \<not> online \<and> held \<noteq> Some False then [context_of t] else [])
            @ spec_notifications rest (Some online))"

text \<open>
  What one call of the notification dispatcher sends. With a target: the payload to the
  target's tab, and once more 500 ms later when the first delivery fails, provided the
  target's URL is a Twitch page; nothing otherwise. Without a target: the payload once,
  best effort, to every tab the query returns that has a non-zero identifier and a URL;
  nothing when the query fails.
\<close>

definition receivers :: "tab list \<Rightarrow> int list" where
  "receivers tabs =
     List.map_filter
       (\<lambda>t. case tab_id t of
              None \<Rightarrow> None
            | Some i \<Rightarrow> if i \<noteq> 0 \<and> tab_url t \<noteq> None then Some i else None)
       tabs"

definition offline_sends :: "env \<Rightarrow> ctx option \<Rightarrow> send list" where
  "offline_sends e target =
     (case target of
        Some c \<Rightarrow>
          if test False twitch_rx (url c)
          then (if delivers e (tabId c) then [(tabId c, offline_payload, 0)]
                else [(tabId c, offline_payload, 0), (tabId c, offline_payload, 500)])
          else []
      | None \<Rightarrow>
          (case queryTabs e of
             None \<Rightarrow> []
           | Some tabs \<Rightarrow> map (\<lambda>i. (i, offline_payload, 0)) (receivers tabs)))"

text \<open>
  What the reconciles of a sequence send, by the rule of the specification: a reconcile
  notifies when it observes Offline while the held state is not Offline.
\<close>

fun spec_sends :: "(env \<times> trigger) list \<Rightarrow> bool option \<Rightarrow> send list" where
  "spec_sends [] held = []"
| "spec_sends ((e, t) # rest) held =
     (case observed e t of
        None \<Rightarrow> spec_sends rest held
      | Some online \<Rightarrow>
          (if \<not> online \<and> held \<noteq> Some False then offline_sends e (context_of t) else [])
            @ spec_sends rest (Some online))"

text \<open>
  An environment with the relay down and one Twitch tab open, number 7, which receives
  messages.
\<close>

definition world_twitch_tab :: env where
  "world_twitch_tab =
     (world relay_down)\<lparr>queryTabs :=
        Some [\<lparr>tab_id = Some 7, tab_url = Some ''https://www.twitch.tv/somechannel''\<rparr>]\<rparr>"

text \<open>
  The two rules of \<open>buildRedirectSessionRules\<close>, as functions of the normalized base.
\<close>

definition liveRedirect :: "string \<Rightarrow> rule" where
  "liveRedirect base =
     \<lparr>rule_id = LIVE_REDIRECT, priority = 1,
      rule_action = Redirect (base @ ''/live/'' @ [CHR 0x5C, CHR ''1'', CHR 0x5C, CHR ''2'']),
      regexFilter = live_rx, isUrlFilterCaseSensitive = None,
      resourceTypes = Some hls_types\<rparr>"

definition vodRedirect :: "string \<Rightarrow> rule" where
  "vodRedirect base =
     \<lparr>rule_id = VOD_REDIRECT, priority = 1,
      rule_action = Redirect (base @ ''/vod/'' @ [CHR 0x5C, CHR ''1'', CHR 0x5C, CHR ''2'']),
      regexFilter = vod_rx, isUrlFilterCaseSensitive = None,
      resourceTypes = Some hls_types\<rparr>"

text \<open>
  Sample environments: one whose configuration store cannot be read, and one whose rule
  engine accepts removals only and rejects every call that adds a rule, as it does when
  a rule is invalid or the quota is used up.
\<close>

definition world_unreadable :: env where
  "world_unreadable = (world relay_up)\<lparr>storageGet := None\<rparr>"

definition world_rejecting_adds :: env where
  "world_rejecting_adds =
     (world relay_up)\<lparr>accepts := (\<lambda>sc removeRuleIds addRules. addRules = [])\<rparr>"

text \<open>
  The rule stores as they stand after each update call a handler makes: what a request
  can meet while the handler is suspended. No route has both categories active.
\<close>

definition new_snapshots :: "state \<Rightarrow> state \<Rightarrow> (rulemap \<times> rulemap) list" where
  "new_snapshots st st' = drop (length (snapshots st)) (snapshots st')"

definition no_overlap :: "rulemap \<times> rulemap \<Rightarrow> bool" where
  "no_overlap m =
     (\<not> (redirect_active m Live \<and> allow_active m Live) \<and>
      \<not> (redirect_active m Vod \<and> allow_active m Vod))"

text \<open>
  The rules and the held state a reconcile leaves for an observed health and a
  normalized base address, when its updates are accepted.
\<close>

definition settled :: "bool \<Rightarrow> string \<Rightarrow> state \<Rightarrow> bool" where
  "settled online base st =
     (sessionRules st LIVE_REDIRECT = (if online then Some (liveRedirect base) else None) \<and>
      sessionRules st VOD_REDIRECT = (if online then Some (vodRedirect base) else None) \<and>
      dynamicRules st LIVE_ALLOW = (if online then None else Some liveAllow) \<and>
      dynamicRules st VOD_ALLOW = (if online then None else Some vodAllow) \<and>
      lastRelayOnline st = Some online)"

section \<open>Facts about the matcher\<close>

lemma run_cat_Nil [simp]: "run ci (cat []) st = [st]"
  by (simp add: cat_def)

lemma run_cat_Cons [simp]:
  "run ci (cat (r # rs)) st = concat (map (run ci (cat rs)) (run ci r st))"
  by (simp add: cat_def)

lemma run_lit_Nil [simp]: "run ci (lit []) st = [st]"
  by (simp add: lit_def)

lemma run_lit_Cons:
  "run ci (lit (x # w)) st = concat (map (run ci (lit w)) (run ci (Atom (Lit x)) st))"
  by (simp add: lit_def)

lemma run_lit:
  "run ci (lit w) (p, s, g) =
     (if length w \<le> length s \<and> map (norm_ch ci) (take (length w) s) = map (norm_ch ci) w
      then [(p + length w, drop (length w) s, g)] else [])"
proof (induction w arbitrary: p s)
  case Nil
  show ?case by simp
next
  case (Cons x w)
  show ?case
  proof (cases s)
    case Nil
    then show ?thesis by (simp add: run_lit_Cons)
  next
    case (Cons c cs)
    then show ?thesis
      using Cons.IH [of "Suc p" cs]
      by (auto simp: run_lit_Cons norm_ch_def)
  qed
qed

lemma search_Bol_later: "0 < p \<Longrightarrow> search ci (cat (Bol # rs)) p s = None"
  by (induction s arbitrary: p) auto

lemma exec_Bol:
  "exec ci (cat (Bol # rs)) s =
     (case run ci (cat rs) (0, s, []) of [] \<Rightarrow> None | m # _ \<Rightarrow> Some (0, m))"
  by (cases s) (auto simp: exec_def search_Bol_later split: list.splits)

section \<open>normalizeBase\<close>

lemma to_lower_fixed [simp]:
  "to_lower (CHR ''h'') = CHR ''h''" "to_lower (CHR ''t'') = CHR ''t''"
  "to_lower (CHR ''p'') = CHR ''p''" "to_lower (CHR ''s'') = CHR ''s''"
  "to_lower (CHR '':'') = CHR '':''"
  by (simp_all add: to_lower_def)

lemma to_lower_colon [simp]: "to_lower c = CHR '':'' \<longleftrightarrow> c = CHR '':''"
  by (auto simp: to_lower_def split: if_splits)

lemma test_scheme_rx: "test True scheme_rx s = has_scheme s"
proof (cases s rule: has_scheme.cases)
  case (1 a b c d e r)
  then show ?thesis
    by (cases r) (auto simp: test_def scheme_rx_def exec_Bol run_lit norm_ch_def)
qed (auto simp: test_def scheme_rx_def exec_Bol run_lit norm_ch_def)

lemma has_scheme_http: "has_scheme (''http://'' @ x)"
  by simp

lemma has_scheme_butlast:
  "has_scheme s \<Longrightarrow> endsWith s (CHR ''/'') \<Longrightarrow> has_scheme (butlast s)"
proof (cases s rule: has_scheme.cases)
  case (1 a b c d e r)
  assume "has_scheme s" "endsWith s (CHR ''/'')"
  with 1 show ?thesis
    by (cases r) (auto simp: endsWith_def split: list.splits if_splits)
qed auto

lemma has_scheme_default: "has_scheme DEFAULT_ADDRESS"
  by (simp add: DEFAULT_ADDRESS_def)

lemma has_scheme_not_slash: "has_scheme s \<Longrightarrow> s \<noteq> ''/''"
  by auto

lemma normalizeBase_has_scheme: "has_scheme (normalizeBase input)"
proof -
  define base0 where "base0 = (case input of None \<Rightarrow> DEFAULT_ADDRESS
      | Some s \<Rightarrow> if s = [] then DEFAULT_ADDRESS else s)"
  define base1 where "base1 = (if \<not> has_scheme base0 then ''http://'' @ base0 else base0)"
  have 1: "has_scheme base1"
    unfolding base1_def using has_scheme_http [of base0] by (simp del: has_scheme.simps)
  have "normalizeBase input = (if endsWith base1 (CHR ''/'') then butlast base1 else base1)"
    by (simp add: normalizeBase_def base0_def base1_def test_scheme_rx Let_def)
  with 1 show ?thesis by (simp add: has_scheme_butlast del: has_scheme.simps)
qed

text \<open>A string ends in two slashes.\<close>

lemma endsWith_butlast:
  "endsWith s c \<Longrightarrow> endsWith (butlast s) d \<longleftrightarrow> (\<exists>t. s = t @ [d, c])"
proof -
  assume a: "endsWith s c"
  then obtain t where t: "s = t @ [c]"
    by (metis endsWith_def append_butlast_last_id)
  show ?thesis
  proof
    assume "endsWith (butlast s) d"
    then obtain t' where "t = t' @ [d]"
      using t by (metis endsWith_def append_butlast_last_id butlast_snoc)
    with t show "\<exists>t. s = t @ [d, c]" by simp
  next
    assume "\<exists>t. s = t @ [d, c]"
    then obtain t' where "s = (t' @ [d]) @ [c]" by auto
    then have "butlast s = t' @ [d]" by (simp only: butlast_snoc)
    then show "endsWith (butlast s) d" by (simp add: endsWith_def)
  qed
qed

lemma strip_trailing:
  "endsWith (if endsWith s (CHR ''/'') then butlast s else s) (CHR ''/'') \<longleftrightarrow>
     (\<exists>t. s = t @ ''//'')"
proof (cases "endsWith s (CHR ''/'')")
  case True
  then show ?thesis using endsWith_butlast [of s "CHR ''/''" "CHR ''/''"] by simp
next
  case False
  then show ?thesis by (auto simp: endsWith_def)
qed

lemma prefixed_two_slashes:
  assumes "s \<noteq> []"
  shows "(\<exists>t. ''http://'' @ s = t @ ''//'') \<longleftrightarrow> (s = ''/'' \<or> (\<exists>t. s = t @ ''//''))"
proof
  assume "\<exists>t. ''http://'' @ s = t @ ''//''"
  then obtain t where t: "''http://'' @ s = (t @ ''/'') @ ''/''" by auto
  from assms obtain s' c where s: "s = s' @ [c]" by (cases s rule: rev_cases) auto
  from t s have "(''http://'' @ s') @ [c] = (t @ ''/'') @ ''/''" by simp
  then have c: "c = CHR ''/''" and eq: "''http://'' @ s' = t @ ''/''"
    by (simp_all only: append1_eq_conv)
  show "s = ''/'' \<or> (\<exists>t. s = t @ ''//'')"
  proof (cases s' rule: rev_cases)
    case Nil
    with s c show ?thesis by simp
  next
    case (snoc s'' d)
    with eq have "(''http://'' @ s'') @ [d] = t @ ''/''" by simp
    then have "d = CHR ''/''" by (simp only: append1_eq_conv)
    with s c snoc show ?thesis by simp
  qed
next
  assume "s = ''/'' \<or> (\<exists>t. s = t @ ''//'')"
  then show "\<exists>t. ''http://'' @ s = t @ ''//''"
  proof
    assume "s = ''/''"
    then have "''http://'' @ s = ''http:/'' @ ''//''" by simp
    then show ?thesis by blast
  next
    assume "\<exists>t. s = t @ ''//''"
    then obtain t where "s = t @ ''//''" by blast
    then have "''http://'' @ s = (''http://'' @ t) @ ''//''" by simp
    then show ?thesis by blast
  qed
qed

lemma normalizeBase_Some:
  "s \<noteq> [] \<Longrightarrow> normalizeBase (Some s) =
     (let q = (if has_scheme s then s else ''http://'' @ s)
      in if endsWith q (CHR ''/'') then butlast q else q)"
  by (simp add: normalizeBase_def test_scheme_rx Let_def)

lemma normalizeBase_default:
  "normalizeBase None = ''http://localhost:9595''"
  "normalizeBase (Some []) = ''http://localhost:9595''"
  by (simp_all add: normalizeBase_def test_scheme_rx DEFAULT_ADDRESS_def endsWith_def)

lemma normalizeBase_trailing:
  "endsWith (normalizeBase input) (CHR ''/'') \<longleftrightarrow>
     (\<exists>s. input = Some s \<and> (s = ''/'' \<or> (\<exists>t. s = t @ ''//'')))"
proof (cases "input = None \<or> input = Some []")
  case True
  then show ?thesis by (auto simp: normalizeBase_default endsWith_def)
next
  case False
  then obtain s where s: "input = Some s" "s \<noteq> []" by (cases input) auto
  show ?thesis
  proof (cases "has_scheme s")
    case True
    then have "s \<noteq> ''/''" by auto
    with True s show ?thesis
      using strip_trailing [of s] by (simp add: normalizeBase_Some del: has_scheme.simps)
  next
    case False
    with s have "normalizeBase input =
        (if endsWith (''http://'' @ s) (CHR ''/'') then butlast (''http://'' @ s)
         else ''http://'' @ s)"
      by (simp add: normalizeBase_Some Let_def del: has_scheme.simps)
    then have "endsWith (normalizeBase input) (CHR ''/'') \<longleftrightarrow> (\<exists>t. ''http://'' @ s = t @ ''//'')"
      by (simp only: strip_trailing)
    also have "\<dots> \<longleftrightarrow> (s = ''/'' \<or> (\<exists>t. s = t @ ''//''))"
      using s(2) by (rule prefixed_two_slashes)
    finally show ?thesis using s(1) by simp
  qed
qed

text \<open>
  C8, as stated, fails: the code removes one trailing slash, so an input that ends in
  two slashes is normalized to a string that still ends in a slash.
\<close>

theorem normalizeBase_trailing_slash_counterexample:
  "normalizeBase (Some ''example.com//'') = ''http://example.com/'' \<and>
   endsWith (normalizeBase (Some ''example.com//'')) (CHR ''/'')"
  by (simp add: normalizeBase_Some endsWith_def)

text \<open>
  C8, amended. For every input the normalized base address starts with \<open>http:\<close> or
  \<open>https:\<close> (in any case of letters): \<open>http://\<close> is put in front of an input without
  such a scheme and an input with one is kept. Then exactly one trailing slash is
  removed, when there is one: the last character and no more. So the result ends in a
  slash precisely when the input ends in two slashes or is the single character \<open>/\<close>.
  \<open>example.com:9595\<close> gives \<open>http://example.com:9595\<close>, and an absent or empty input
  gives the default local address.
\<close>

theorem normalizeBase_qualified_one_slash_removed:
  "test True scheme_rx (normalizeBase input) \<and>
   (\<forall>s r. s \<noteq> [] \<and> \<not> test True scheme_rx s \<and> s = r @ ''/'' \<longrightarrow>
      normalizeBase (Some s) = ''http://'' @ r) \<and>
   (\<forall>s. s \<noteq> [] \<and> \<not> test True scheme_rx s \<and> \<not> endsWith s (CHR ''/'') \<longrightarrow>
      normalizeBase (Some s) = ''http://'' @ s) \<and>
   (\<forall>s r. test True scheme_rx s \<and> s = r @ ''/'' \<longrightarrow> normalizeBase (Some s) = r) \<and>
   (\<forall>s. test True scheme_rx s \<and> \<not> endsWith s (CHR ''/'') \<longrightarrow> normalizeBase (Some s) = s) \<and>
   (endsWith (normalizeBase input) (CHR ''/'') \<longleftrightarrow>
      (\<exists>s. input = Some s \<and> (s = ''/'' \<or> (\<exists>t. s = t @ ''//'')))) \<and>
   normalizeBase (Some ''example.com:9595'') = ''http://example.com:9595'' \<and>
   normalizeBase None = ''http://localhost:9595'' \<and>
   normalizeBase (Some []) = ''http://localhost:9595''"
proof -
  have a: "test True scheme_rx (normalizeBase input)"
    by (simp only: test_scheme_rx normalizeBase_has_scheme)
  have b: "\<forall>s r. s \<noteq> [] \<and> \<not> test True scheme_rx s \<and> s = r @ ''/'' \<longrightarrow>
      normalizeBase (Some s) = ''http://'' @ r"
  proof (intro allI impI)
    fix s r :: string
    assume h: "s \<noteq> [] \<and> \<not> test True scheme_rx s \<and> s = r @ ''/''"
    then have ne: "s \<noteq> []" and ns: "\<not> has_scheme s" and eq: "s = r @ ''/''"
      unfolding test_scheme_rx by blast+
    have e1: "endsWith (''http://'' @ s) (CHR ''/'')"
      unfolding eq by (simp add: endsWith_def)
    have bl: "butlast (''http://'' @ s) = ''http://'' @ r"
      unfolding eq by (simp add: butlast_append)
    have "normalizeBase (Some s) =
        (if endsWith (''http://'' @ s) (CHR ''/'') then butlast (''http://'' @ s)
         else ''http://'' @ s)"
      using ne ns by (simp add: normalizeBase_Some Let_def del: has_scheme.simps)
    then show "normalizeBase (Some s) = ''http://'' @ r"
      by (simp only: e1 bl if_True)
  qed
  have c: "\<forall>s. s \<noteq> [] \<and> \<not> test True scheme_rx s \<and> \<not> endsWith s (CHR ''/'') \<longrightarrow>
      normalizeBase (Some s) = ''http://'' @ s"
    by (auto simp: normalizeBase_Some test_scheme_rx endsWith_def Let_def
          simp del: has_scheme.simps)
  have d: "\<forall>s r. test True scheme_rx s \<and> s = r @ ''/'' \<longrightarrow> normalizeBase (Some s) = r"
  proof (intro allI impI)
    fix s r :: string
    assume h: "test True scheme_rx s \<and> s = r @ ''/''"
    then have hs: "has_scheme s" unfolding test_scheme_rx by blast
    then have ne: "s \<noteq> []" by auto
    have "endsWith s (CHR ''/'')" "butlast s = r"
      using h by (simp_all add: endsWith_def)
    with hs ne show "normalizeBase (Some s) = r"
      by (simp add: normalizeBase_Some Let_def del: has_scheme.simps)
  qed
  have e: "\<forall>s. test True scheme_rx s \<and> \<not> endsWith s (CHR ''/'') \<longrightarrow> normalizeBase (Some s) = s"
  proof (intro allI impI)
    fix s :: string
    assume h: "test True scheme_rx s \<and> \<not> endsWith s (CHR ''/'')"
    then have hs: "has_scheme s" unfolding test_scheme_rx by blast
    then have ne: "s \<noteq> []" by auto
    with hs h show "normalizeBase (Some s) = s"
      by (simp add: normalizeBase_Some Let_def del: has_scheme.simps)
  qed
  have f: "normalizeBase (Some ''example.com:9595'') = ''http://example.com:9595''"
    by (simp add: normalizeBase_Some endsWith_def)
  note g = normalizeBase_trailing [of input]
  note h = normalizeBase_default
  show ?thesis
    by (intro conjI) (rule a b c d e f g h)+
qed

theorem normalizeBase_qualified_one_slash_removed_witness:
  "''example.com//'' \<noteq> [] \<and> \<not> test True scheme_rx ''example.com//'' \<and>
   ''example.com//'' = ''example.com/'' @ ''/'' \<and>
   normalizeBase (Some ''example.com//'') = ''http://'' @ ''example.com/''"
proof -
  have h: "''example.com//'' \<noteq> [] \<and> \<not> test True scheme_rx ''example.com//'' \<and>
    ''example.com//'' = ''example.com/'' @ ''/''"
    by (simp add: test_scheme_rx)
  note t = normalizeBase_qualified_one_slash_removed [of None]
  have "normalizeBase (Some ''example.com//'') = ''http://'' @ ''example.com/''"
    by (rule t [THEN conjunct2, THEN conjunct1, rule_format, OF h])
  with h show ?thesis by blast
qed

section \<open>What each step changes and what it leaves alone\<close>

lemma updateDynamicRules_frame [simp]:
  "sessionRules (updateDynamicRules e rem add st) = sessionRules st"
  "lastRelayOnline (updateDynamicRules e rem add st) = lastRelayOnline st"
  "fetched (updateDynamicRules e rem add st) = fetched st"
  "dispatched (updateDynamicRules e rem add st) = dispatched st"
  "sent (updateDynamicRules e rem add st) = sent st"
  by (simp_all add: updateDynamicRules_def snapshot_def)

lemma updateSessionRules_frame [simp]:
  "dynamicRules (updateSessionRules e rem add st) = dynamicRules st"
  "lastRelayOnline (updateSessionRules e rem add st) = lastRelayOnline st"
  "fetched (updateSessionRules e rem add st) = fetched st"
  "dispatched (updateSessionRules e rem add st) = dispatched st"
  "sent (updateSessionRules e rem add st) = sent st"
  by (simp_all add: updateSessionRules_def snapshot_def)

lemma updateDynamicRules_rules:
  "dynamicRules (updateDynamicRules e rem add st) =
     (if accepts e Dynamic rem add then replace_rules (dynamicRules st) rem add
      else dynamicRules st)"
  by (simp add: updateDynamicRules_def snapshot_def)

lemma updateSessionRules_rules:
  "sessionRules (updateSessionRules e rem add st) =
     (if accepts e Session rem add then replace_rules (sessionRules st) rem add
      else sessionRules st)"
  by (simp add: updateSessionRules_def snapshot_def)

lemma isRelayOnline_fst [simp]:
  "fst (isRelayOnline e a st) = classify (fetch e (normalizeBase (Some a) @ HEALTH_PATH))"
  by (simp add: isRelayOnline_def Let_def)

lemma isRelayOnline_frame [simp]:
  "dynamicRules (snd (isRelayOnline e a st)) = dynamicRules st"
  "sessionRules (snd (isRelayOnline e a st)) = sessionRules st"
  "lastRelayOnline (snd (isRelayOnline e a st)) = lastRelayOnline st"
  "dispatched (snd (isRelayOnline e a st)) = dispatched st"
  "sent (snd (isRelayOnline e a st)) = sent st"
  "snapshots (snd (isRelayOnline e a st)) = snapshots st"
  "fetched (snd (isRelayOnline e a st)) = fetched st @ [normalizeBase (Some a) @ HEALTH_PATH]"
  by (simp_all add: isRelayOnline_def Let_def)

lemma sendOfflineMessage_frame [simp]:
  "dynamicRules (sendOfflineMessage e c st) = dynamicRules st"
  "sessionRules (sendOfflineMessage e c st) = sessionRules st"
  "lastRelayOnline (sendOfflineMessage e c st) = lastRelayOnline st"
  "fetched (sendOfflineMessage e c st) = fetched st"
  "snapshots (sendOfflineMessage e c st) = snapshots st"
  "dispatched (sendOfflineMessage e c st) = dispatched st @ [c]"
  by (simp_all add: sendOfflineMessage_def Let_def split: option.splits)

lemmas installer_defs =
  addOrUpdateAdsBlockDynamicRule_def setAllowBypassRules_def addRedirectSessionRules_def
  removeRedirectSessionRules_def removeOldDynamicRedirectRules_def

lemma applyOnlineState_held [simp]:
  "lastRelayOnline (applyOnlineState e online a c st) = Some online"
  by (simp add: applyOnlineState_def Let_def)

lemma applyOnlineState_dispatched:
  "dispatched (applyOnlineState e online a c st) =
     dispatched st @ (if \<not> online \<and> lastRelayOnline st \<noteq> Some False then [c] else [])"
  by (simp add: applyOnlineState_def Let_def installer_defs)

lemma applyOnlineState_fetched [simp]:
  "fetched (applyOnlineState e online a c st) = fetched st"
  by (simp add: applyOnlineState_def Let_def installer_defs)

text \<open>Every path of a reconcile in one shape: nothing without an address, else the probe.\<close>

lemma reconcile_no_address:
  "address_of e t = None \<Longrightarrow> reconcile e t st = st"
  by (cases t)
     (simp_all add: applyRulesFromStorage_def onAlarm_def refreshRulesNow_def split: option.splits)

lemma reconcile_held:
  "lastRelayOnline (reconcile e t st) =
     (case observed e t of None \<Rightarrow> lastRelayOnline st | Some online \<Rightarrow> Some online)"
  by (cases t)
     (auto simp: applyRulesFromStorage_def onAlarm_def refreshRulesNow_def
        onStorageChanged_def observed_def Let_def split_beta split: option.splits)

lemma reconcile_dispatched:
  "dispatched (reconcile e t st) =
     dispatched st @
       (if observed e t = Some False \<and> lastRelayOnline st \<noteq> Some False then [context_of t]
        else [])"
  by (cases t)
     (auto simp: applyRulesFromStorage_def onAlarm_def refreshRulesNow_def
        onStorageChanged_def observed_def Let_def split_beta applyOnlineState_dispatched
        installer_defs split: option.splits)

lemma reconciles_dispatched:
  "dispatched (reconciles ets st) = dispatched st @ spec_notifications ets (lastRelayOnline st)"
proof (induction ets arbitrary: st)
  case Nil
  show ?case by simp
next
  case (Cons et ets)
  obtain e t where et: "et = (e, t)" by (cases et)
  show ?case
    by (cases "observed e t") (auto simp: et Cons.IH reconcile_dispatched reconcile_held)
qed

lemma spec_notifications_offline:
  "\<forall>et\<in>set ets. observed (fst et) (snd et) = Some False \<Longrightarrow>
   spec_notifications ets (Some False) = []"
  by (induction ets) auto

text \<open>What a call of the dispatcher sends, and what a reconcile sends.\<close>

lemma broadcast_sends_receivers:
  "broadcast_sends tabs = map (\<lambda>i. (i, offline_payload, 0)) (receivers tabs)"
  by (induction tabs) (auto simp: receivers_def map_filter_simps split: option.splits)

lemma sendOfflineMessage_sent:
  "sent (sendOfflineMessage e c st) = sent st @ offline_sends e c"
  by (simp add: sendOfflineMessage_def offline_sends_def Let_def broadcast_sends_receivers
        split: option.splits)

lemma applyOnlineState_sent:
  "sent (applyOnlineState e online a c st) =
     sent st @ (if \<not> online \<and> lastRelayOnline st \<noteq> Some False then offline_sends e c else [])"
  by (simp add: applyOnlineState_def Let_def installer_defs sendOfflineMessage_sent)

lemma reconcile_sent:
  "sent (reconcile e t st) =
     sent st @
       (if observed e t = Some False \<and> lastRelayOnline st \<noteq> Some False
        then offline_sends e (context_of t) else [])"
  by (cases t)
     (auto simp: applyRulesFromStorage_def onAlarm_def refreshRulesNow_def
        onStorageChanged_def observed_def Let_def split_beta applyOnlineState_sent
        installer_defs split: option.splits)

lemma reconciles_sent:
  "sent (reconciles ets st) = sent st @ spec_sends ets (lastRelayOnline st)"
proof (induction ets arbitrary: st)
  case Nil
  show ?case by simp
next
  case (Cons et ets)
  obtain e t where et: "et = (e, t)" by (cases et)
  show ?case
    by (cases "observed e t") (auto simp: et Cons.IH reconcile_sent reconcile_held)
qed

lemma spec_sends_offline:
  "\<forall>et\<in>set ets. observed (fst et) (snd et) = Some False \<Longrightarrow> spec_sends ets (Some False) = []"
  by (induction ets) auto

text \<open>
  C2, as stated, fails. A navigation to a usher URL passes the listener's check and
  starts a reconcile with that tab and URL as its target. When this reconcile is the one
  that observes the transition to Offline, the dispatcher is called with a target that
  is not a Twitch page and returns before sending: no notification goes out, although
  a Twitch tab is open, and the held state becomes Offline, so that the reconciles that
  observe Offline after it send nothing either: three consecutive Offline observations
  then produce no notification.
\<close>

theorem offline_notification_counterexample:
  "isTwitchNavigation ''https://usher.ttvnw.net/vod/1.m3u8'' \<and>
   observed world_twitch_tab (Navigation \<lparr>tabId = 7, url = ''https://usher.ttvnw.net/vod/1.m3u8''\<rparr>)
     = Some False \<and>
   lastRelayOnline init \<noteq> Some False \<and>
   sent (reconcile world_twitch_tab
           (Navigation \<lparr>tabId = 7, url = ''https://usher.ttvnw.net/vod/1.m3u8''\<rparr>) init) = [] \<and>
   observed world_twitch_tab AlarmTick = Some False \<and>
   sent (reconciles
           [(world_twitch_tab, Navigation \<lparr>tabId = 7, url = ''https://usher.ttvnw.net/vod/1.m3u8''\<rparr>),
            (world_twitch_tab, AlarmTick), (world_twitch_tab, AlarmTick)] init) = []"
proof -
  let ?n = "Navigation \<lparr>tabId = 7, url = ''https://usher.ttvnw.net/vod/1.m3u8''\<rparr>"
  have u: "test False usher_rx ''https://usher.ttvnw.net/vod/1.m3u8''"
    by code_simp
  have t: "\<not> test False twitch_rx ''https://usher.ttvnw.net/vod/1.m3u8''"
    by code_simp
  have o: "observed world_twitch_tab ?n = Some False"
    "observed world_twitch_tab AlarmTick = Some False"
    by (simp_all add: observed_def world_twitch_tab_def world_def relay_down_def
          address_or_default_def)
  have h: "lastRelayOnline init \<noteq> Some False" "sent init = []"
    by (simp_all add: init_def)
  have s: "offline_sends world_twitch_tab (context_of ?n) = []"
    using t by (simp add: offline_sends_def)
  have 1: "sent (reconcile world_twitch_tab ?n init) = []"
    unfolding reconcile_sent using o h s by simp
  have 2: "sent (reconciles [(world_twitch_tab, ?n), (world_twitch_tab, AlarmTick),
      (world_twitch_tab, AlarmTick)] init) = []"
    unfolding reconciles_sent using o h s by simp
  from u o h(1) 1 2 show ?thesis
    by (simp add: isTwitchNavigation_def del: reconcile.simps reconciles.simps)
qed

text \<open>
  C2, amended. A reconcile calls the notification dispatcher exactly when it observes
  Offline while the held state \<open>lastRelayOnline\<close> is not already Offline, the first
  observation (held state \<open>null\<close>) included, and then it sends what that one call sends:
  for a reconcile without a target (startup, alarm tick, configuration change) the fixed
  payload once to every tab the Twitch-tab query returns that has a non-zero identifier
  and a URL; for a navigation reconcile whose URL is a Twitch page the payload to that
  tab, and once more 500 ms later when the first delivery fails; for a navigation
  reconcile whose URL is not a Twitch page nothing. Any other reconcile sends nothing.
  Over any sequence of reconciles the calls and the messages are those this rule gives;
  in particular any number of consecutive Offline observations, three for one, started
  from a held state other than Offline, make exactly one call, that of the first
  reconcile, and send its messages only.
\<close>

theorem offline_notification_edge_triggered:
  "dispatched (reconcile e t st) =
     dispatched st @
       (if observed e t = Some False \<and> lastRelayOnline st \<noteq> Some False then [context_of t]
        else []) \<and>
   sent (reconcile e t st) =
     sent st @
       (if observed e t = Some False \<and> lastRelayOnline st \<noteq> Some False
        then offline_sends e (context_of t) else []) \<and>
   dispatched (reconciles ets st) = dispatched st @ spec_notifications ets (lastRelayOnline st) \<and>
   sent (reconciles ets st) = sent st @ spec_sends ets (lastRelayOnline st) \<and>
   ((\<forall>et\<in>set ((e, t) # ets). observed (fst et) (snd et) = Some False) \<and>
    lastRelayOnline st \<noteq> Some False \<longrightarrow>
      length (dispatched (reconciles ((e, t) # ets) st)) = Suc (length (dispatched st)) \<and>
      sent (reconciles ((e, t) # ets) st) = sent st @ offline_sends e (context_of t)) \<and>
   offline_payload = (False, ''Proxy error, you will see ads. Is the server running?'')"
proof -
  have "length (dispatched (reconciles ((e, t) # ets) st)) = Suc (length (dispatched st)) \<and>
      sent (reconciles ((e, t) # ets) st) = sent st @ offline_sends e (context_of t)"
    if off: "\<forall>et\<in>set ((e, t) # ets). observed (fst et) (snd et) = Some False"
      and held: "lastRelayOnline st \<noteq> Some False"
  proof -
    from off have o: "observed e t = Some False"
      and rest: "\<forall>et\<in>set ets. observed (fst et) (snd et) = Some False" by auto
    from o rest held have "spec_notifications ((e, t) # ets) (lastRelayOnline st) = [context_of t]"
      and "spec_sends ((e, t) # ets) (lastRelayOnline st) = offline_sends e (context_of t)"
      by (simp_all add: spec_notifications_offline spec_sends_offline)
    then show ?thesis by (simp add: reconciles_dispatched reconciles_sent del: reconciles.simps)
  qed
  then show ?thesis
    using reconcile_dispatched [of e t st] reconciles_dispatched [of ets st]
      reconcile_sent [of e t st] reconciles_sent [of ets st]
    by (simp add: offline_payload_def del: reconciles.simps reconcile.simps)
qed

theorem offline_notification_edge_triggered_witness:
  "observed world_twitch_tab Startup = Some False \<and>
   observed world_twitch_tab AlarmTick = Some False \<and>
   lastRelayOnline init \<noteq> Some False \<and>
   length (dispatched (reconciles
     [(world_twitch_tab, Startup), (world_twitch_tab, AlarmTick), (world_twitch_tab, AlarmTick)]
     init)) = 1 \<and>
   sent (reconciles
     [(world_twitch_tab, Startup), (world_twitch_tab, AlarmTick), (world_twitch_tab, AlarmTick)]
     init) = [(7, offline_payload, 0)]"
proof -
  have o: "observed world_twitch_tab Startup = Some False"
    "observed world_twitch_tab AlarmTick = Some False"
    by (simp_all add: observed_def world_twitch_tab_def world_def relay_down_def
          address_or_default_def)
  have h: "lastRelayOnline init \<noteq> Some False" "sent init = []" "dispatched init = []"
    by (simp_all add: init_def)
  have s: "offline_sends world_twitch_tab (context_of Startup) = [(7, offline_payload, 0)]"
    by (simp add: offline_sends_def world_twitch_tab_def world_def receivers_def
          map_filter_simps)
  have a: "\<forall>et\<in>set ((world_twitch_tab, Startup) #
        [(world_twitch_tab, AlarmTick), (world_twitch_tab, AlarmTick)]).
      observed (fst et) (snd et) = Some False"
    using o by simp
  from offline_notification_edge_triggered
    [of world_twitch_tab Startup init "[(world_twitch_tab, AlarmTick), (world_twitch_tab, AlarmTick)]"]
    a h(1)
  have "length (dispatched (reconciles ((world_twitch_tab, Startup) #
        [(world_twitch_tab, AlarmTick), (world_twitch_tab, AlarmTick)]) init)) =
      Suc (length (dispatched init)) \<and>
    sent (reconciles ((world_twitch_tab, Startup) #
        [(world_twitch_tab, AlarmTick), (world_twitch_tab, AlarmTick)]) init) =
      sent init @ offline_sends world_twitch_tab (context_of Startup)"
    by blast
  with o h s show ?thesis by (simp del: reconciles.simps)
qed

text \<open>
  C3. The probe makes one GET, to the normalized base address followed by \<open>/stat/\<close>, and
  classifies its outcome: Offline when the fetch throws or the status is not a success
  status (200 to 299); the value of the field when the body parses to an object with a
  boolean \<open>online\<close> field; Online when the body parses to anything else or does not
  parse. One URL is fetched per probe: there is no retry.
\<close>

theorem isRelayOnline_classification:
  "(fetch e (normalizeBase (Some address) @ ''/stat/'') = FetchThrows \<longrightarrow>
      \<not> fst (isRelayOnline e address st)) \<and>
   (\<forall>status b. fetch e (normalizeBase (Some address) @ ''/stat/'') = Response status b \<and>
      \<not> (200 \<le> status \<and> status \<le> 299) \<longrightarrow> \<not> fst (isRelayOnline e address st)) \<and>
   (\<forall>status kvs v.
      fetch e (normalizeBase (Some address) @ ''/stat/'') = Response status (BodyJson (JObj kvs)) \<and>
      200 \<le> status \<and> status \<le> 299 \<and> map_of kvs ''online'' = Some (JBool v) \<longrightarrow>
        fst (isRelayOnline e address st) = v) \<and>
   (\<forall>status data.
      fetch e (normalizeBase (Some address) @ ''/stat/'') = Response status (BodyJson data) \<and>
      200 \<le> status \<and> status \<le> 299 \<and>
      \<not> (\<exists>kvs v. data = JObj kvs \<and> map_of kvs ''online'' = Some (JBool v)) \<longrightarrow>
        fst (isRelayOnline e address st)) \<and>
   (\<forall>status.
      fetch e (normalizeBase (Some address) @ ''/stat/'') = Response status BodyUnparseable \<and>
      200 \<le> status \<and> status \<le> 299 \<longrightarrow> fst (isRelayOnline e address st)) \<and>
   fetched (snd (isRelayOnline e address st)) =
     fetched st @ [normalizeBase (Some address) @ ''/stat/'']"
proof -
  have lacks: "classify (Response status (BodyJson data))"
    if "200 \<le> status" "status \<le> 299"
      "\<not> (\<exists>kvs v. data = JObj kvs \<and> map_of kvs ''online'' = Some (JBool v))"
    for status data
    using that
    by (cases data) (auto simp: res_ok_def split: option.splits json.splits)
  have u: "normalizeBase (Some address) @ HEALTH_PATH = normalizeBase (Some address) @ ''/stat/''"
    by (simp add: HEALTH_PATH_def)
  define r where "r = fetch e (normalizeBase (Some address) @ ''/stat/'')"
  have 1: "fst (isRelayOnline e address st) = classify r"
    unfolding r_def by (simp only: isRelayOnline_fst u)
  have 2: "fetched (snd (isRelayOnline e address st)) =
     fetched st @ [normalizeBase (Some address) @ ''/stat/'']"
    by (simp only: isRelayOnline_frame u)
  have a: "r = FetchThrows \<longrightarrow> \<not> classify r" by simp
  have b: "\<forall>status b. r = Response status b \<and> \<not> (200 \<le> status \<and> status \<le> 299) \<longrightarrow>
      \<not> classify r"
    by (simp add: res_ok_def)
  have c: "\<forall>status kvs v. r = Response status (BodyJson (JObj kvs)) \<and>
      200 \<le> status \<and> status \<le> 299 \<and> map_of kvs ''online'' = Some (JBool v) \<longrightarrow>
        classify r = v"
    by (simp add: res_ok_def)
  have d: "\<forall>status data. r = Response status (BodyJson data) \<and>
      200 \<le> status \<and> status \<le> 299 \<and>
      \<not> (\<exists>kvs v. data = JObj kvs \<and> map_of kvs ''online'' = Some (JBool v)) \<longrightarrow>
        classify r"
    using lacks by blast
  have e: "\<forall>status. r = Response status BodyUnparseable \<and>
      200 \<le> status \<and> status \<le> 299 \<longrightarrow> classify r"
    by (simp add: res_ok_def)
  from a b c d e 2 show ?thesis
    unfolding 1 r_def [symmetric] by blast
qed

theorem isRelayOnline_classification_witness:
  "fetch (world (Response 200 (BodyJson (JObj [(''online'', JBool False)]))))
     (normalizeBase (Some ''example.com:9595'') @ ''/stat/'') =
     Response 200 (BodyJson (JObj [(''online'', JBool False)])) \<and>
   map_of [(''online'', JBool False)] ''online'' = Some (JBool False) \<and>
   fst (isRelayOnline (world (Response 200 (BodyJson (JObj [(''online'', JBool False)]))))
     ''example.com:9595'' init) = False"
proof -
  have f: "fetch (world (Response 200 (BodyJson (JObj [(''online'', JBool False)]))))
     (normalizeBase (Some ''example.com:9595'') @ ''/stat/'') =
     Response 200 (BodyJson (JObj [(''online'', JBool False)]))"
    by (simp add: world_def)
  have m: "map_of [(''online'', JBool False)] ''online'' = Some (JBool False)" by simp
  from isRelayOnline_classification
    [of "world (Response 200 (BodyJson (JObj [(''online'', JBool False)])))"
        "''example.com:9595''" init] f m
  have "fst (isRelayOnline (world (Response 200 (BodyJson (JObj [(''online'', JBool False)]))))
     ''example.com:9595'' init) = False"
    by simp
  with f m show ?thesis by blast
qed

lemmas handler_defs =
  applyRulesFromStorage_def onAlarm_def refreshRulesNow_def onStorageChanged_def

lemmas rule_ids =
  AMAZON_ADS_BLOCK_def LIVE_ALLOW_def VOD_ALLOW_def LIVE_REDIRECT_def VOD_REDIRECT_def

lemma buildRedirectSessionRules_eq:
  "buildRedirectSessionRules a =
     [liveRedirect (normalizeBase (Some a)), vodRedirect (normalizeBase (Some a))]"
  by (simp add: buildRedirectSessionRules_def liveRedirect_def vodRedirect_def Let_def)

lemma rule_id_simps [simp]:
  "rule_id (liveRedirect b) = LIVE_REDIRECT" "rule_id (vodRedirect b) = VOD_REDIRECT"
  "rule_id liveAllow = LIVE_ALLOW" "rule_id vodAllow = VOD_ALLOW"
  "rule_id adsBlockRule = AMAZON_ADS_BLOCK"
  by (simp_all add: liveRedirect_def vodRedirect_def liveAllow_def vodAllow_def adsBlockRule_def)

section \<open>A failed configuration read\<close>

text \<open>
  C5, as stated, fails: when \<open>chrome.storage.sync.get\<close> throws, the \<open>catch\<close> of the handler
  ends the reconcile. Started on a fresh worker, neither the startup reconcile nor the
  alarm probes anything, the ad-block rule is not installed and the held state stays
  \<open>null\<close>.
\<close>

theorem config_read_failure_counterexample:
  "storageGet world_unreadable = None \<and>
   fetched (reconcile world_unreadable Startup init) = [] \<and>
   dynamicRules (reconcile world_unreadable Startup init) AMAZON_ADS_BLOCK = None \<and>
   lastRelayOnline (reconcile world_unreadable Startup init) = None \<and>
   fetched (reconcile world_unreadable AlarmTick init) = []"
  by (simp add: world_unreadable_def world_def handler_defs init_def)

text \<open>
  C5, amended. If reading the configuration store fails (the get call throws), the
  reconcile is abandoned: the state is left as it was, so no rule is installed or
  removed, the relay is not probed, nothing is notified and the held state is unchanged.
  The default local address is used when the read succeeds and holds no address: the
  reconcile then runs as it does with the default address stored.
\<close>

theorem config_read_failure_abandons:
  "(storageGet e = None \<longrightarrow>
      applyRulesFromStorage e st = st \<and> onAlarm e name st = st \<and> refreshRulesNow e c st = st) \<and>
   (storageGet e = Some None \<longrightarrow>
      applyRulesFromStorage e st =
        applyRulesFromStorage (e\<lparr>storageGet := Some (Some DEFAULT_ADDRESS)\<rparr>) st \<and>
      onAlarm e name st = onAlarm (e\<lparr>storageGet := Some (Some DEFAULT_ADDRESS)\<rparr>) name st \<and>
      refreshRulesNow e c st =
        refreshRulesNow (e\<lparr>storageGet := Some (Some DEFAULT_ADDRESS)\<rparr>) c st)"
proof -
  let ?e = "e\<lparr>storageGet := Some (Some DEFAULT_ADDRESS)\<rparr>"
  have i: "isRelayOnline ?e a s = isRelayOnline e a s" for a s
    by (simp add: isRelayOnline_def)
  have d: "updateDynamicRules ?e rem add s = updateDynamicRules e rem add s" for rem add s
    by (simp add: updateDynamicRules_def)
  have u: "updateSessionRules ?e rem add s = updateSessionRules e rem add s" for rem add s
    by (simp add: updateSessionRules_def)
  have m: "sendOfflineMessage ?e x s = sendOfflineMessage e x s" for x s
    by (simp add: sendOfflineMessage_def Let_def split: option.splits)
  have a: "applyOnlineState ?e online ad x s = applyOnlineState e online ad x s"
    for online ad x s
    by (simp add: applyOnlineState_def installer_defs Let_def d u m)
  show ?thesis
    by (simp add: handler_defs installer_defs address_or_default_def Let_def split_beta i d u a)
qed

theorem config_read_failure_abandons_witness:
  "storageGet world_unreadable = None \<and>
   applyRulesFromStorage world_unreadable init = init \<and>
   onAlarm world_unreadable HEALTHCHECK_ALARM init = init"
proof -
  have h: "storageGet world_unreadable = None"
    by (simp add: world_unreadable_def world_def)
  from config_read_failure_abandons [of world_unreadable init HEALTHCHECK_ALARM None] h
  show ?thesis by simp
qed

section \<open>The rules after a reconcile\<close>

lemma replace_rules_simps:
  "replace_rules m [a] [r] = m(a := None, rule_id r \<mapsto> r)"
  "replace_rules m [a, b] [] = m(a := None, b := None)"
  "replace_rules m [a, b] [r1, r2] = m(a := None, b := None, rule_id r1 \<mapsto> r1, rule_id r2 \<mapsto> r2)"
  by (simp_all add: replace_rules_def)

lemma ids_distinct [simp]:
  "LIVE_REDIRECT \<noteq> VOD_REDIRECT" "VOD_REDIRECT \<noteq> LIVE_REDIRECT"
  "LIVE_ALLOW \<noteq> VOD_ALLOW" "VOD_ALLOW \<noteq> LIVE_ALLOW"
  "AMAZON_ADS_BLOCK \<noteq> LIVE_ALLOW" "AMAZON_ADS_BLOCK \<noteq> VOD_ALLOW"
  "LIVE_ALLOW \<noteq> AMAZON_ADS_BLOCK" "VOD_ALLOW \<noteq> AMAZON_ADS_BLOCK"
  by (simp_all add: rule_ids)

text \<open>
  With every update accepted, the stores after \<open>applyOnlineState\<close>, read at an identifier.
\<close>

lemma applyOnlineState_dynamicRules:
  assumes "\<forall>sc rem add. accepts e sc rem add"
  shows "dynamicRules (applyOnlineState e online a c st) k =
     (if k = LIVE_ALLOW then (if online then None else Some liveAllow)
      else if k = VOD_ALLOW then (if online then None else Some vodAllow)
      else dynamicRules st k)"
  using assms
  by (simp add: applyOnlineState_def installer_defs Let_def updateDynamicRules_rules
        replace_rules_simps)

lemma applyOnlineState_sessionRules:
  assumes "\<forall>sc rem add. accepts e sc rem add"
  shows "sessionRules (applyOnlineState e online a c st) k =
     (if online then
        (if k = LIVE_REDIRECT then Some (liveRedirect (normalizeBase (Some a)))
         else if k = VOD_REDIRECT then Some (vodRedirect (normalizeBase (Some a)))
         else sessionRules st k)
      else sessionRules st k)"
  using assms
  by (simp add: applyOnlineState_def installer_defs Let_def updateSessionRules_rules
        replace_rules_simps buildRedirectSessionRules_eq)

lemma removeRedirectSessionRules_sessionRules:
  assumes "\<forall>sc rem add. accepts e sc rem add"
  shows "sessionRules (removeRedirectSessionRules e st) k =
     (if k = LIVE_REDIRECT \<or> k = VOD_REDIRECT then None else sessionRules st k)"
  using assms
  by (simp add: installer_defs updateSessionRules_rules replace_rules_simps)

lemma addOrUpdateAdsBlockDynamicRule_dynamicRules:
  assumes "\<forall>sc rem add. accepts e sc rem add"
  shows "dynamicRules (addOrUpdateAdsBlockDynamicRule e st) k =
     (if k = AMAZON_ADS_BLOCK then Some adsBlockRule else dynamicRules st k)"
  using assms
  by (simp add: installer_defs updateDynamicRules_rules replace_rules_simps)

lemma installer_frame [simp]:
  "dynamicRules (removeRedirectSessionRules e st) = dynamicRules st"
  "sessionRules (addOrUpdateAdsBlockDynamicRule e st) = sessionRules st"
  "lastRelayOnline (removeRedirectSessionRules e st) = lastRelayOnline st"
  "lastRelayOnline (addOrUpdateAdsBlockDynamicRule e st) = lastRelayOnline st"
  by (simp_all add: installer_defs)

text \<open>The same for a whole reconcile that has an address to work with.\<close>

lemma health_of_observed:
  "address_of e t = Some a \<Longrightarrow>
   observed e t = Some (classify (fetch e (normalizeBase (Some a) @ HEALTH_PATH)))"
  by (simp add: observed_def)

lemma reconcile_sessionRules:
  assumes "\<forall>sc rem add. accepts e sc rem add" and "address_of e t = Some a"
    and "observed e t = Some online"
  shows "sessionRules (reconcile e t st) k =
     (if k = LIVE_REDIRECT
        then (if online then Some (liveRedirect (normalizeBase (Some a))) else None)
      else if k = VOD_REDIRECT
        then (if online then Some (vodRedirect (normalizeBase (Some a))) else None)
      else sessionRules st k)"
  using assms(2,3) health_of_observed [OF assms(2)]
  by (cases t)
     (auto simp: handler_defs Let_def split_beta applyOnlineState_sessionRules [OF assms(1)]
        removeRedirectSessionRules_sessionRules [OF assms(1)] split: option.splits)

lemma reconcile_dynamicRules:
  assumes "\<forall>sc rem add. accepts e sc rem add" and "address_of e t = Some a"
    and "observed e t = Some online"
  shows "dynamicRules (reconcile e t st) k =
     (if k = LIVE_ALLOW then (if online then None else Some liveAllow)
      else if k = VOD_ALLOW then (if online then None else Some vodAllow)
      else if k = AMAZON_ADS_BLOCK \<and> t = Startup then Some adsBlockRule
      else dynamicRules st k)"
  using assms(2,3) health_of_observed [OF assms(2)]
  by (cases t)
     (auto simp: handler_defs Let_def split_beta applyOnlineState_dynamicRules [OF assms(1)]
        addOrUpdateAdsBlockDynamicRule_dynamicRules [OF assms(1)] split: option.splits)

text \<open>
  C1, as stated, fails: a rule update the engine rejects is caught and logged, and the
  reconcile goes on to its end. With an engine that rejects the installation of the
  redirect rules, a reconcile that observes Online removes the allow rules and ends with
  neither category active for the live route.
\<close>

theorem exactly_one_category_counterexample:
  "observed world_rejecting_adds AlarmTick = Some True \<and>
   lastRelayOnline (reconcile world_rejecting_adds AlarmTick init) = Some True \<and>
   \<not> redirect_active (stores (reconcile world_rejecting_adds AlarmTick init)) Live \<and>
   \<not> allow_active (stores (reconcile world_rejecting_adds AlarmTick init)) Live"
  by (simp add: observed_def world_rejecting_adds_def world_def relay_up_def res_ok_def
        handler_defs address_or_default_def Let_def split_beta applyOnlineState_def
        installer_defs updateDynamicRules_rules updateSessionRules_rules
        replace_rules_simps buildRedirectSessionRules_eq
        redirect_active_def allow_active_def stores_def init_def)

text \<open>
  C1, amended. After a reconcile (startup, alarm tick, config change or navigation) whose
  configuration read succeeds and whose rule updates are all accepted by the engine,
  exactly one of the two categories is active for each route: when the observed health
  is Online the redirect rules built from the address are installed and the
  allow-bypass rules are removed, and when it is Offline the allow-bypass rules are
  installed and the redirect rules are removed.
\<close>

theorem exactly_one_category_after_reconcile:
  assumes "\<forall>sc rem add. accepts e sc rem add" and "address_of e t = Some a"
  shows "(observed e t = Some True \<longrightarrow>
            sessionRules (reconcile e t st) LIVE_REDIRECT =
              Some (liveRedirect (normalizeBase (Some a))) \<and>
            sessionRules (reconcile e t st) VOD_REDIRECT =
              Some (vodRedirect (normalizeBase (Some a))) \<and>
            dynamicRules (reconcile e t st) LIVE_ALLOW = None \<and>
            dynamicRules (reconcile e t st) VOD_ALLOW = None) \<and>
         (observed e t = Some False \<longrightarrow>
            dynamicRules (reconcile e t st) LIVE_ALLOW = Some liveAllow \<and>
            dynamicRules (reconcile e t st) VOD_ALLOW = Some vodAllow \<and>
            sessionRules (reconcile e t st) LIVE_REDIRECT = None \<and>
            sessionRules (reconcile e t st) VOD_REDIRECT = None) \<and>
         (\<forall>r. exactly_one (stores (reconcile e t st)) r)"
proof -
  obtain online where o: "observed e t = Some online"
    using assms(2) by (simp add: observed_def)
  note s = reconcile_sessionRules [OF assms o] and d = reconcile_dynamicRules [OF assms o]
  have "exactly_one (stores (reconcile e t st)) r" for r
    by (cases r) (simp_all add: exactly_one_def redirect_active_def allow_active_def stores_def s d)
  then show ?thesis by (simp add: o s d)
qed

theorem exactly_one_category_after_reconcile_witness:
  "(\<forall>sc rem add. accepts (world relay_down) sc rem add) \<and>
   address_of (world relay_down) Startup = Some ''example.com:9595'' \<and>
   observed (world relay_down) Startup = Some False \<and>
   dynamicRules (reconcile (world relay_down) Startup init) LIVE_ALLOW = Some liveAllow \<and>
   sessionRules (reconcile (world relay_down) Startup init) LIVE_REDIRECT = None \<and>
   exactly_one (stores (reconcile (world relay_down) Startup init)) Live"
proof -
  have h: "\<forall>sc rem add. accepts (world relay_down) sc rem add"
    "address_of (world relay_down) Startup = Some ''example.com:9595''"
    by (simp_all add: world_def address_or_default_def)
  have o: "observed (world relay_down) Startup = Some False"
    by (simp add: observed_def world_def relay_down_def address_or_default_def)
  from exactly_one_category_after_reconcile [OF h, of init] h o
  show ?thesis by simp
qed

section \<open>Repeated reconciles\<close>

lemma reconcile_settles:
  assumes "\<forall>sc rem add. accepts e sc rem add" and "address_of e t = Some a"
    and "observed e t = Some online"
  shows "settled online (normalizeBase (Some a)) (reconcile e t st)"
  using assms(3)
  by (simp add: settled_def reconcile_sessionRules [OF assms] reconcile_dynamicRules [OF assms]
        reconcile_held)

lemma reconcile_settled:
  assumes "\<forall>sc rem add. accepts e sc rem add" and "address_of e t = Some a"
    and "observed e t = Some online" and "settled online (normalizeBase (Some a)) st"
  shows "sessionRules (reconcile e t st) = sessionRules st"
    and "lastRelayOnline (reconcile e t st) = lastRelayOnline st"
    and "k \<noteq> AMAZON_ADS_BLOCK \<Longrightarrow> dynamicRules (reconcile e t st) k = dynamicRules st k"
    and "dynamicRules (reconcile e t st) AMAZON_ADS_BLOCK =
           (if t = Startup then Some adsBlockRule else dynamicRules st AMAZON_ADS_BLOCK)"
proof -
  show "sessionRules (reconcile e t st) = sessionRules st"
  proof (rule ext)
    fix k
    show "sessionRules (reconcile e t st) k = sessionRules st k"
      using assms(4) by (simp add: reconcile_sessionRules [OF assms(1-3)] settled_def)
  qed
  show "lastRelayOnline (reconcile e t st) = lastRelayOnline st"
    using assms(3,4) by (simp add: reconcile_held settled_def)
  show "dynamicRules (reconcile e t st) k = dynamicRules st k" if "k \<noteq> AMAZON_ADS_BLOCK"
    using assms(4) that by (simp add: reconcile_dynamicRules [OF assms(1-3)] settled_def)
  show "dynamicRules (reconcile e t st) AMAZON_ADS_BLOCK =
           (if t = Startup then Some adsBlockRule else dynamicRules st AMAZON_ADS_BLOCK)"
    by (simp add: reconcile_dynamicRules [OF assms(1-3)])
qed

lemma reconciles_settled:
  assumes "\<forall>et\<in>set ets. (\<forall>sc rem add. accepts (fst et) sc rem add) \<and>
             (\<exists>a. address_of (fst et) (snd et) = Some a \<and> normalizeBase (Some a) = base) \<and>
             observed (fst et) (snd et) = Some online"
    and "settled online base st"
  shows "sessionRules (reconciles ets st) = sessionRules st \<and>
         lastRelayOnline (reconciles ets st) = lastRelayOnline st \<and>
         (\<forall>k. k \<noteq> AMAZON_ADS_BLOCK \<longrightarrow> dynamicRules (reconciles ets st) k = dynamicRules st k) \<and>
         dynamicRules (reconciles ets st) AMAZON_ADS_BLOCK =
           (if \<exists>et\<in>set ets. snd et = Startup then Some adsBlockRule
            else dynamicRules st AMAZON_ADS_BLOCK)"
  using assms
proof (induction ets arbitrary: st)
  case Nil
  show ?case by simp
next
  case (Cons et ets)
  obtain e t where et: "et = (e, t)" by (cases et)
  from Cons.prems(1) et obtain a where
    acc: "\<forall>sc rem add. accepts e sc rem add" and a: "address_of e t = Some a"
    and base: "normalizeBase (Some a) = base" and o: "observed e t = Some online"
    by auto
  from Cons.prems(2) base have st: "settled online (normalizeBase (Some a)) st" by simp
  note step = reconcile_settled [OF acc a o st]
  have st1: "settled online base (reconcile e t st)"
    using reconcile_settles [OF acc a o] base by simp
  have rest: "\<forall>et\<in>set ets. (\<forall>sc rem add. accepts (fst et) sc rem add) \<and>
             (\<exists>a. address_of (fst et) (snd et) = Some a \<and> normalizeBase (Some a) = base) \<and>
             observed (fst et) (snd et) = Some online"
    using Cons.prems(1) by simp
  note ih = Cons.IH [OF rest st1]
  show ?case
    using ih step by (auto simp: et)
qed

text \<open>
  C7, as stated, fails in two ways. The ad-block rule is installed by the startup
  reconcile only: an alarm tick followed by a startup reconcile, with the same health
  and address and every update accepted, ends with a rule the first execution did not
  leave. And an update the engine rejects in one execution and accepts in the next
  makes the rules differ.
\<close>

theorem reconcile_idempotence_counterexample:
  "observed (world relay_up) AlarmTick = Some True \<and>
   observed (world relay_up) Startup = Some True \<and>
   address_of (world relay_up) AlarmTick = address_of (world relay_up) Startup \<and>
   dynamicRules (reconcile (world relay_up) AlarmTick init) AMAZON_ADS_BLOCK = None \<and>
   dynamicRules (reconciles [(world relay_up, AlarmTick), (world relay_up, Startup)] init)
     AMAZON_ADS_BLOCK = Some adsBlockRule \<and>
   observed world_rejecting_adds AlarmTick = Some True \<and>
   address_of world_rejecting_adds AlarmTick = address_of (world relay_up) AlarmTick \<and>
   sessionRules (reconcile world_rejecting_adds AlarmTick init) LIVE_REDIRECT = None \<and>
   sessionRules (reconciles [(world_rejecting_adds, AlarmTick), (world relay_up, AlarmTick)] init)
     LIVE_REDIRECT = Some (liveRedirect ''http://example.com:9595'')"
proof -
  have acc: "\<forall>sc rem add. accepts (world relay_up) sc rem add"
    by (simp add: world_def)
  have a: "address_of (world relay_up) AlarmTick = Some ''example.com:9595''"
    "address_of (world relay_up) Startup = Some ''example.com:9595''"
    "address_of world_rejecting_adds AlarmTick = Some ''example.com:9595''"
    by (simp_all add: world_def world_rejecting_adds_def address_or_default_def)
  have o: "observed (world relay_up) AlarmTick = Some True"
    "observed (world relay_up) Startup = Some True"
    "observed world_rejecting_adds AlarmTick = Some True"
    by (simp_all add: observed_def world_def world_rejecting_adds_def relay_up_def res_ok_def
          address_or_default_def)
  have n: "normalizeBase (Some ''example.com:9595'') = ''http://example.com:9595''"
    by (simp add: normalizeBase_Some endsWith_def)
  have 1: "dynamicRules (reconcile (world relay_up) AlarmTick init) AMAZON_ADS_BLOCK = None"
    using reconcile_dynamicRules [OF acc a(1) o(1), of init AMAZON_ADS_BLOCK]
    by (simp add: init_def del: reconcile.simps)
  have 2: "dynamicRules (reconciles [(world relay_up, AlarmTick), (world relay_up, Startup)] init)
     AMAZON_ADS_BLOCK = Some adsBlockRule"
    by (simp add: reconcile_dynamicRules [OF acc a(2) o(2)] del: reconcile.simps)
  have 3: "sessionRules (reconcile world_rejecting_adds AlarmTick init) LIVE_REDIRECT = None"
    by (simp add: world_rejecting_adds_def world_def relay_up_def res_ok_def
          handler_defs address_or_default_def Let_def split_beta applyOnlineState_def
          installer_defs updateSessionRules_rules replace_rules_simps
          buildRedirectSessionRules_eq init_def)
  have 4: "sessionRules (reconciles [(world_rejecting_adds, AlarmTick), (world relay_up, AlarmTick)] init)
     LIVE_REDIRECT = Some (liveRedirect ''http://example.com:9595'')"
    by (simp add: reconcile_sessionRules [OF acc a(1) o(1)] n del: reconcile.simps)
  from a o 1 2 3 4 show ?thesis
    by (simp del: address_of.simps reconcile.simps reconciles.simps)
qed

text \<open>
  C7, amended. Take two or more reconciles run one after the other, each with a
  successful configuration read and every rule update accepted, all of them observing
  the same health and working with the same normalized base address. The session
  redirect rules, the allow-bypass rules, every other dynamic rule but the ad-block rule,
  and the held state after the last execution equal those after the first. The
  ad-block rule is installed by startup reconciles only, so the whole rule set is the
  same provided the first execution is a startup reconcile, or the ad-block rule is
  already installed, or no later execution is a startup reconcile.
\<close>

theorem reconcile_idempotent:
  assumes "\<forall>et\<in>set ((e0, t0) # ets).
             (\<forall>sc rem add. accepts (fst et) sc rem add) \<and>
             (\<exists>a. address_of (fst et) (snd et) = Some a \<and> normalizeBase (Some a) = base) \<and>
             observed (fst et) (snd et) = Some online"
  shows "sessionRules (reconciles ((e0, t0) # ets) st) = sessionRules (reconcile e0 t0 st) \<and>
         lastRelayOnline (reconciles ((e0, t0) # ets) st) = lastRelayOnline (reconcile e0 t0 st) \<and>
         (\<forall>k. k \<noteq> AMAZON_ADS_BLOCK \<longrightarrow>
            dynamicRules (reconciles ((e0, t0) # ets) st) k = dynamicRules (reconcile e0 t0 st) k) \<and>
         (t0 = Startup \<or> dynamicRules st AMAZON_ADS_BLOCK = Some adsBlockRule \<or>
          (\<forall>et\<in>set ets. snd et \<noteq> Startup) \<longrightarrow>
            dynamicRules (reconciles ((e0, t0) # ets) st) = dynamicRules (reconcile e0 t0 st))"
proof -
  from assms obtain a where
    acc: "\<forall>sc rem add. accepts e0 sc rem add" and a: "address_of e0 t0 = Some a"
    and base: "normalizeBase (Some a) = base" and o: "observed e0 t0 = Some online"
    by auto
  let ?st1 = "reconcile e0 t0 st"
  have st1: "settled online base ?st1"
    using reconcile_settles [OF acc a o] base by simp
  have rest: "\<forall>et\<in>set ets. (\<forall>sc rem add. accepts (fst et) sc rem add) \<and>
             (\<exists>a. address_of (fst et) (snd et) = Some a \<and> normalizeBase (Some a) = base) \<and>
             observed (fst et) (snd et) = Some online"
    using assms by simp
  note r = reconciles_settled [OF rest st1]
  have ads1: "dynamicRules ?st1 AMAZON_ADS_BLOCK =
      (if t0 = Startup then Some adsBlockRule else dynamicRules st AMAZON_ADS_BLOCK)"
    by (simp add: reconcile_dynamicRules [OF acc a o])
  have whole: "dynamicRules (reconciles ets ?st1) = dynamicRules ?st1"
    if "t0 = Startup \<or> dynamicRules st AMAZON_ADS_BLOCK = Some adsBlockRule \<or>
          (\<forall>et\<in>set ets. snd et \<noteq> Startup)"
  proof (rule ext)
    fix k
    show "dynamicRules (reconciles ets ?st1) k = dynamicRules ?st1 k"
    proof (cases "k = AMAZON_ADS_BLOCK")
      case True
      with that r ads1 show ?thesis by auto
    next
      case False
      with r show ?thesis by simp
    qed
  qed
  from r whole show ?thesis by simp
qed

theorem reconcile_idempotent_witness:
  "(\<forall>sc rem add. accepts (world relay_up) sc rem add) \<and>
   address_of (world relay_up) Startup = Some ''example.com:9595'' \<and>
   address_of (world relay_up) AlarmTick = Some ''example.com:9595'' \<and>
   observed (world relay_up) Startup = Some True \<and>
   observed (world relay_up) AlarmTick = Some True \<and>
   sessionRules (reconciles [(world relay_up, Startup), (world relay_up, AlarmTick),
       (world relay_up, AlarmTick)] init) =
     sessionRules (reconcile (world relay_up) Startup init) \<and>
   dynamicRules (reconciles [(world relay_up, Startup), (world relay_up, AlarmTick),
       (world relay_up, AlarmTick)] init) =
     dynamicRules (reconcile (world relay_up) Startup init) \<and>
   lastRelayOnline (reconciles [(world relay_up, Startup), (world relay_up, AlarmTick),
       (world relay_up, AlarmTick)] init) =
     lastRelayOnline (reconcile (world relay_up) Startup init)"
proof -
  have acc: "\<forall>sc rem add. accepts (world relay_up) sc rem add"
    by (simp add: world_def)
  have a: "address_of (world relay_up) Startup = Some ''example.com:9595''"
    "address_of (world relay_up) AlarmTick = Some ''example.com:9595''"
    by (simp_all add: world_def address_or_default_def)
  have o: "observed (world relay_up) Startup = Some True"
    "observed (world relay_up) AlarmTick = Some True"
    by (simp_all add: observed_def world_def relay_up_def res_ok_def address_or_default_def)
  have h: "\<forall>et\<in>set ((world relay_up, Startup) #
              [(world relay_up, AlarmTick), (world relay_up, AlarmTick)]).
             (\<forall>sc rem add. accepts (fst et) sc rem add) \<and>
             (\<exists>a. address_of (fst et) (snd et) = Some a \<and>
                  normalizeBase (Some a) = normalizeBase (Some ''example.com:9595'')) \<and>
             observed (fst et) (snd et) = Some True"
    using acc a o by (auto simp del: address_of.simps)
  from reconcile_idempotent [OF h, of init] acc a o
  show ?thesis by (simp del: reconciles.simps reconcile.simps)
qed

section \<open>The rule stores between the update calls of a reconcile\<close>

lemma new_snapshots_reconcile:
  assumes "\<forall>sc rem add. accepts e sc rem add" and "address_of e t = Some a"
    and "observed e t = Some online"
  shows "new_snapshots st (reconcile e t st) =
     (let D0 = (if t = Startup then replace_rules (dynamicRules st) [AMAZON_ADS_BLOCK] [adsBlockRule]
                else dynamicRules st);
          S0 = replace_rules (sessionRules st) [LIVE_REDIRECT, VOD_REDIRECT] [];
          D1 = replace_rules D0 [LIVE_ALLOW, VOD_ALLOW] [];
          D2 = replace_rules D0 [LIVE_ALLOW, VOD_ALLOW] [liveAllow, vodAllow];
          S1 = replace_rules S0 [LIVE_REDIRECT, VOD_REDIRECT] (buildRedirectSessionRules a)
      in (if t = Startup then [(D0, sessionRules st)] else []) @ [(D0, S0)] @
         (if online then [(D1, S0), (D1, S1)] else [(D2, S0)]))"
  using assms(1) assms(2,3) health_of_observed [OF assms(2)]
  by (cases t)
     (auto simp: new_snapshots_def handler_defs installer_defs applyOnlineState_def
        updateDynamicRules_def updateSessionRules_def snapshot_def isRelayOnline_def
        sendOfflineMessage_def Let_def split_beta split: option.splits)

lemma stores_reconcile:
  assumes "\<forall>sc rem add. accepts e sc rem add" and "address_of e t = Some a"
  shows "stores (reconcile e t st) = last (new_snapshots st (reconcile e t st))"
  using assms
  by (cases t)
     (auto simp: new_snapshots_def stores_def handler_defs installer_defs applyOnlineState_def
        updateDynamicRules_def updateSessionRules_def snapshot_def isRelayOnline_def
        sendOfflineMessage_def Let_def split_beta split: option.splits)

text \<open>
  C4, as stated, fails. A worker that has settled on Online holds the redirect rules and
  no allow rule. Its next reconcile, every update accepted and the relay still Online,
  first removes the session redirects: after that call, and until the redirect rules are
  installed again two update calls later, the live route has neither category active.
\<close>

theorem reconcile_window_counterexample:
  "exactly_one (stores (reconcile (world relay_up) Startup init)) Live \<and>
   \<not> redirect_active
       (hd (new_snapshots (reconcile (world relay_up) Startup init)
              (reconcile (world relay_up) AlarmTick (reconcile (world relay_up) Startup init))))
       Live \<and>
   \<not> allow_active
       (hd (new_snapshots (reconcile (world relay_up) Startup init)
              (reconcile (world relay_up) AlarmTick (reconcile (world relay_up) Startup init))))
       Live"
proof -
  have acc: "\<forall>sc rem add. accepts (world relay_up) sc rem add"
    by (simp add: world_def)
  have a: "address_of (world relay_up) AlarmTick = Some ''example.com:9595''"
    "address_of (world relay_up) Startup = Some ''example.com:9595''"
    by (simp_all add: world_def address_or_default_def)
  have o: "observed (world relay_up) AlarmTick = Some True"
    "observed (world relay_up) Startup = Some True"
    by (simp_all add: observed_def world_def relay_up_def res_ok_def address_or_default_def)
  let ?st1 = "reconcile (world relay_up) Startup init"
  have 1: "exactly_one (stores ?st1) Live"
    using reconcile_sessionRules [OF acc a(2) o(2), of init LIVE_REDIRECT]
      reconcile_dynamicRules [OF acc a(2) o(2), of init LIVE_ALLOW]
    by (simp add: exactly_one_def redirect_active_def allow_active_def stores_def
          del: reconcile.simps)
  have 2: "dynamicRules ?st1 LIVE_ALLOW = None"
    using reconcile_dynamicRules [OF acc a(2) o(2), of init LIVE_ALLOW]
    by (simp del: reconcile.simps)
  have "hd (new_snapshots ?st1 (reconcile (world relay_up) AlarmTick ?st1)) =
      (dynamicRules ?st1, replace_rules (sessionRules ?st1) [LIVE_REDIRECT, VOD_REDIRECT] [])"
    by (simp add: new_snapshots_reconcile [OF acc a(1) o(1)] Let_def del: reconcile.simps)
  with 1 2 show ?thesis
    by (simp add: redirect_active_def allow_active_def replace_rules_simps
          del: reconcile.simps)
qed

text \<open>
  C4, amended. Take a single reconcile whose configuration read succeeds and whose
  rule updates are all accepted, started in a state where no route has both categories
  active. Then after none of its update calls does a route have both RedirectRules and
  AllowBypassRules active, and after its last call the stores are those the reconcile
  ends with, in which every route has exactly one category active. A route may have
  neither category active in between.
\<close>

theorem no_overlap_within_reconcile:
  assumes "\<forall>sc rem add. accepts e sc rem add" and "address_of e t = Some a"
    and "no_overlap (stores st)"
  shows "(\<forall>m\<in>set (new_snapshots st (reconcile e t st)). no_overlap m) \<and>
         new_snapshots st (reconcile e t st) \<noteq> [] \<and>
         last (new_snapshots st (reconcile e t st)) = stores (reconcile e t st) \<and>
         (\<forall>r. exactly_one (stores (reconcile e t st)) r)"
proof -
  obtain online where o: "observed e t = Some online"
    using assms(2) by (simp add: observed_def)
  note n = new_snapshots_reconcile [OF assms(1,2) o, of st]
  have 1: "\<forall>m\<in>set (new_snapshots st (reconcile e t st)). no_overlap m"
    using assms(3) unfolding n
    by (auto simp: Let_def no_overlap_def redirect_active_def allow_active_def stores_def
          replace_rules_simps buildRedirectSessionRules_eq)
  have 2: "new_snapshots st (reconcile e t st) \<noteq> []"
    unfolding n by (simp add: Let_def)
  have 3: "\<forall>r. exactly_one (stores (reconcile e t st)) r"
  proof
    fix r
    show "exactly_one (stores (reconcile e t st)) r"
      by (cases r)
         (simp_all add: exactly_one_def redirect_active_def allow_active_def stores_def
            reconcile_sessionRules [OF assms(1,2) o] reconcile_dynamicRules [OF assms(1,2) o])
  qed
  from 1 2 3 stores_reconcile [OF assms(1,2), of st] show ?thesis by simp
qed

theorem no_overlap_within_reconcile_witness:
  "(\<forall>sc rem add. accepts (world relay_down) sc rem add) \<and>
   address_of (world relay_down) AlarmTick = Some ''example.com:9595'' \<and>
   no_overlap (stores init) \<and>
   list_all no_overlap (new_snapshots init (reconcile (world relay_down) AlarmTick init)) \<and>
   new_snapshots init (reconcile (world relay_down) AlarmTick init) \<noteq> []"
proof -
  have h: "\<forall>sc rem add. accepts (world relay_down) sc rem add"
    "address_of (world relay_down) AlarmTick = Some ''example.com:9595''"
    by (simp_all add: world_def address_or_default_def)
  have i: "no_overlap (stores init)"
    by (simp add: no_overlap_def redirect_active_def allow_active_def stores_def init_def)
  from no_overlap_within_reconcile [OF h i] h i
  show ?thesis by (simp add: list_all_iff del: reconcile.simps address_of.simps)
qed

section \<open>The states a match can end in\<close>

lemma set_run_cat_Cons:
  "set (run ci (cat (r # rs)) st) = (\<Union>st'\<in>set (run ci r st). set (run ci (cat rs) st'))"
  by simp

lemma map_norm_ch_False [simp]: "map (norm_ch False) w = w"
  by (induction w) (simp_all add: norm_ch_def)

text \<open>Equality of texts up to the case of letters; the punctuation has no case.\<close>

lemma same_text_False [simp]: "same_text False a w \<longleftrightarrow> a = w"
  by (simp add: same_text_def)

lemma same_text_refl [simp]: "same_text ci w w"
  by (simp add: same_text_def)

lemma same_text_length: "same_text ci a w \<Longrightarrow> length a = length w"
  unfolding same_text_def by (rule map_eq_imp_length_eq)

lemma same_text_Nil [simp]: "same_text ci a [] \<longleftrightarrow> a = []"
  by (simp add: same_text_def)

lemma same_text_Cons:
  "same_text ci a (c # w) \<longleftrightarrow>
     (\<exists>d a'. a = d # a' \<and> norm_ch ci d = norm_ch ci c \<and> same_text ci a' w)"
  by (cases a) (simp_all add: same_text_def)


lemma to_lower_punct [simp]:
  "to_lower c = CHR ''.'' \<longleftrightarrow> c = CHR ''.''"
  "to_lower c = CHR ''?'' \<longleftrightarrow> c = CHR ''?''"
  "to_lower c = CHR ''/'' \<longleftrightarrow> c = CHR ''/''"
  by (auto simp: to_lower_def split: if_splits)

lemma to_lower_punct_fixed [simp]:
  "to_lower (CHR ''.'') = CHR ''.''" "to_lower (CHR ''?'') = CHR ''?''"
  "to_lower (CHR ''/'') = CHR ''/''"
  by (simp_all add: to_lower_def)

lemma norm_ch_punct [simp]:
  "norm_ch ci c = CHR ''.'' \<longleftrightarrow> c = CHR ''.''"
  "norm_ch ci c = CHR ''?'' \<longleftrightarrow> c = CHR ''?''"
  "norm_ch ci c = CHR ''/'' \<longleftrightarrow> c = CHR ''/''"
  by (simp_all add: norm_ch_def)

lemma norm_ch_punct_fixed [simp]:
  "norm_ch ci (CHR ''.'') = CHR ''.''" "norm_ch ci (CHR ''?'') = CHR ''?''"
  "norm_ch ci (CHR ''/'') = CHR ''/''"
  by (simp_all add: norm_ch_def)

lemma same_text_punct [simp]:
  "same_text ci a ''.'' \<longleftrightarrow> a = ''.''" "same_text ci a ''?'' \<longleftrightarrow> a = ''?''"
  by (auto simp: same_text_Cons)

lemma atom_ok_NoneOf [simp]:
  "atom_ok ci (NoneOf ''.'') c \<longleftrightarrow> c \<noteq> CHR ''.''"
  "atom_ok ci (NoneOf ''/?'') c \<longleftrightarrow> c \<noteq> CHR ''/'' \<and> c \<noteq> CHR ''?''"
  by auto

lemma same_text_not_mem:
  assumes "same_text ci a w" "norm_ch ci x \<notin> set (map (norm_ch ci) w)"
  shows "x \<notin> set a"
proof
  assume "x \<in> set a"
  then have "norm_ch ci x \<in> set (map (norm_ch ci) a)" by simp
  with assms show False by (simp add: same_text_def)
qed

lemma test_Bol:
  "test ci (cat (Bol # rs)) s \<longleftrightarrow> set (run ci (cat rs) (0, s, [])) \<noteq> {}"
  by (simp add: test_def exec_Bol split: list.splits)

lemma test_Bol_ex:
  "test ci (cat (Bol # rs)) s \<longleftrightarrow> (\<exists>p s' g. (p, s', g) \<in> set (run ci (cat rs) (0, s, [])))"
  unfolding test_Bol ex_in_conv [symmetric] by auto

lemma in_cat_Nil: "x \<in> set (run ci (cat []) st) \<longleftrightarrow> x = st"
  by auto

lemma in_cat_Cons:
  "x \<in> set (run ci (cat (r # rs)) st) \<longleftrightarrow>
     (\<exists>p s g. (p, s, g) \<in> set (run ci r st) \<and> x \<in> set (run ci (cat rs) (p, s, g)))"
  by auto

lemma in_cat_append:
  "x \<in> set (run ci (cat (rs @ rs')) st) \<longleftrightarrow>
     (\<exists>p s g. (p, s, g) \<in> set (run ci (cat rs) st) \<and> x \<in> set (run ci (cat rs') (p, s, g)))"
proof (induction rs arbitrary: st)
  case Nil
  show ?case by (cases st) (simp del: run.simps run_cat_Cons)
next
  case (Cons r rs)
  show ?case
    unfolding append_Cons in_cat_Cons [of x ci r] in_cat_Cons [of _ ci r rs] Cons.IH
    by blast
qed

lemma in_lit:
  "(p', s', g') \<in> set (run ci (lit w) (p, s, g)) \<longleftrightarrow>
     (\<exists>a. s = a @ s' \<and> same_text ci a w) \<and> p' = p + length w \<and> g' = g"
proof -
  have "length w \<le> length s \<and> map (norm_ch ci) (take (length w) s) = map (norm_ch ci) w \<and>
      s' = drop (length w) s \<longleftrightarrow> (\<exists>a. s = a @ s' \<and> same_text ci a w)"
    (is "?L \<longleftrightarrow> ?R")
  proof
    assume ?L
    then have "s = take (length w) s @ s' \<and> same_text ci (take (length w) s) w"
      by (simp add: same_text_def)
    then show ?R by blast
  next
    assume ?R
    then obtain a where a: "s = a @ s'" "same_text ci a w" by blast
    from a(2) have "length a = length w" by (rule same_text_length)
    with a show ?L by (simp add: same_text_def)
  qed
  then show ?thesis by (auto simp: run_lit)
qed

lemma take_takeWhile:
  "k \<le> length (takeWhile P s) \<Longrightarrow> take k s = take k (takeWhile P s)"
  by (metis append_eq_conv_conj takeWhile_dropWhile_id take_append take_all_iff
        diff_is_0_eq' take_0 append_Nil2 length_take min.absorb2)

lemma set_reps:
  "set (reps ci a lo (p, s, g)) =
     {(p + length w, s', g) | w s'. s = w @ s' \<and> lo \<le> length w \<and> (\<forall>c\<in>set w. atom_ok ci a c)}"
  (is "?L = ?R")
proof -
  let ?P = "atom_ok ci a"
  let ?n = "length (takeWhile ?P s)"
  have L: "?L = {(p + k, drop k s, g) | k. lo \<le> k \<and> k \<le> ?n}"
    by (auto simp: image_iff)
  show ?thesis
  proof (rule set_eqI, rule iffI)
    fix x assume "x \<in> ?L"
    with L obtain k where k: "x = (p + k, drop k s, g)" "lo \<le> k" "k \<le> ?n" by auto
    have n: "?n \<le> length s" by (rule length_takeWhile_le)
    have "take k s = take k (takeWhile ?P s)" using k(3) by (rule take_takeWhile)
    then have "set (take k s) \<subseteq> set (takeWhile ?P s)" by (simp add: set_take_subset)
    then have all: "\<forall>c\<in>set (take k s). ?P c" by (auto dest: set_takeWhileD)
    have "s = take k s @ drop k s" by simp
    moreover have "length (take k s) = k" using k(3) n by simp
    ultimately have "x = (p + length (take k s), drop k s, g) \<and> s = take k s @ drop k s \<and>
        lo \<le> length (take k s) \<and> (\<forall>c\<in>set (take k s). ?P c)"
      using k(1,2) all by simp
    then show "x \<in> ?R"
      by (intro CollectI exI [of _ "take k s"] exI [of _ "drop k s"])
  next
    fix x assume "x \<in> ?R"
    then obtain w s' where w: "x = (p + length w, s', g)" "s = w @ s'" "lo \<le> length w"
      "\<forall>c\<in>set w. ?P c" by auto
    from w(2,4) have "takeWhile ?P s = w @ takeWhile ?P s'" by (simp add: takeWhile_append2)
    then have "length w \<le> ?n" by simp
    moreover have "drop (length w) s = s'" using w(2) by simp
    ultimately show "x \<in> ?L" using w(1,3) unfolding L by blast
  qed
qed

lemma in_Star:
  "(p', s', g') \<in> set (run ci (Star a) (p, s, g)) \<longleftrightarrow>
     (\<exists>w. s = w @ s' \<and> (\<forall>c\<in>set w. atom_ok ci a c) \<and> p' = p + length w \<and> g' = g)"
  by (auto simp: set_reps simp del: reps.simps)

lemma in_Plus:
  "(p', s', g') \<in> set (run ci (Plus a) (p, s, g)) \<longleftrightarrow>
     (\<exists>w. s = w @ s' \<and> w \<noteq> [] \<and> (\<forall>c\<in>set w. atom_ok ci a c) \<and> p' = p + length w \<and> g' = g)"
  by (auto simp: set_reps Suc_le_eq simp del: reps.simps)

lemma in_Grp:
  "(p', s', g') \<in> set (run ci (Grp i r) (p, s, g)) \<longleftrightarrow>
     (\<exists>g0. (p', s', g0) \<in> set (run ci r (p, s, g)) \<and> g' = (i, take (p' - p) s) # g0)"
proof
  assume "(p', s', g') \<in> set (run ci (Grp i r) (p, s, g))"
  then show "\<exists>g0. (p', s', g0) \<in> set (run ci r (p, s, g)) \<and> g' = (i, take (p' - p) s) # g0"
    by auto
next
  assume "\<exists>g0. (p', s', g0) \<in> set (run ci r (p, s, g)) \<and> g' = (i, take (p' - p) s) # g0"
  then obtain g0 where g0: "(p', s', g0) \<in> set (run ci r (p, s, g))"
    "g' = (i, take (p' - p) s) # g0" by blast
  have "(p', s', g') = (\<lambda>(p', s', g'). (p', s', (i, take (p' - p) s) # g')) (p', s', g0)"
    using g0(2) by simp
  from this g0(1) show "(p', s', g') \<in> set (run ci (Grp i r) (p, s, g))"
    unfolding run.simps set_map by (rule image_eqI)
qed

lemma in_Eol:
  "(p', s', g') \<in> set (run ci Eol (p, s, g)) \<longleftrightarrow> s = [] \<and> p' = p \<and> s' = [] \<and> g' = g"
  by auto

lemma in_Opt:
  "x \<in> set (run ci (Opt r) st) \<longleftrightarrow> x \<in> set (run ci r st) \<or> x = st"
  by auto


text \<open>An optional host label with its dot, \<open>([^.]+\.)?\<close>.\<close>

lemma in_label:
  "(p', s', g') \<in> set (run ci (Opt (Grp i (cat [Plus (NoneOf ''.''), lit ''.'']))) (p, s, g)) \<longleftrightarrow>
     (p' = p \<and> s' = s \<and> g' = g) \<or>
     (\<exists>l. is_label l \<and> s = l @ ''.'' @ s' \<and> p' = p + length l + 1 \<and> g' = (i, l @ ''.'') # g)"
proof -
  have inner: "(p', s', g0) \<in> set (run ci (cat [Plus (NoneOf ''.''), lit ''.'']) (p, s, g)) \<longleftrightarrow>
      (\<exists>l. is_label l \<and> s = l @ ''.'' @ s' \<and> p' = p + length l + 1 \<and> g0 = g)" for g0
    by (auto simp: in_cat_Cons in_cat_Nil in_lit in_Plus is_label_def
          simp del: run.simps run_cat_Cons run_cat_Nil)
  have "(p', s', g') \<in> set (run ci (Grp i (cat [Plus (NoneOf ''.''), lit ''.''])) (p, s, g)) \<longleftrightarrow>
      (\<exists>l. is_label l \<and> s = l @ ''.'' @ s' \<and> p' = p + length l + 1 \<and> g' = (i, l @ ''.'') # g)"
    (is "?L \<longleftrightarrow> ?R")
  proof
    assume ?L
    then obtain l where l: "is_label l" "s = l @ ''.'' @ s'" "p' = p + length l + 1"
      "g' = (i, take (p' - p) s) # g"
      unfolding in_Grp inner by blast
    from l(2,3) have "take (p' - p) s = l @ ''.''" by simp
    with l show ?R by blast
  next
    assume ?R
    then obtain l where l: "is_label l" "s = l @ ''.'' @ s'" "p' = p + length l + 1"
      "g' = (i, l @ ''.'') # g" by blast
    from l(2,3) have "take (p' - p) s = l @ ''.''" by simp
    with l have "is_label l \<and> s = l @ ''.'' @ s' \<and> p' = p + length l + 1 \<and>
        g' = (i, take (p' - p) s) # g" by simp
    then show ?L unfolding in_Grp inner by blast
  qed
  then show ?thesis
    unfolding in_Opt [of "(p', s', g')"] by auto
qed

lemma twitch_states:
  "(p', s', g') \<in> set (run False (cat [lit ''https://'',
         Opt (Grp 1 (cat [Plus (NoneOf ''.''), lit ''.''])), lit ''twitch.tv/'']) (0, u, [])) \<longleftrightarrow>
   (u = twitch_url [] s' \<and> p' = 18 \<and> g' = []) \<or>
   (\<exists>l. is_label l \<and> u = twitch_url (l @ ''.'') s' \<and>
        p' = length l + 19 \<and> g' = [(1, l @ ''.'')])"
  by (auto simp: in_cat_Cons in_cat_Nil in_lit in_label twitch_url_def
        simp del: run.simps run_cat_Cons run_cat_Nil)

lemma test_twitch_rx:
  "test False twitch_rx u \<longleftrightarrow>
     (\<exists>sub path. u = twitch_url sub path \<and> (sub = [] \<or> (\<exists>l. is_label l \<and> sub = l @ ''.'')))"
  unfolding twitch_rx_def test_Bol_ex twitch_states by blast

lemma test_usher_rx:
  "test False usher_rx u \<longleftrightarrow> (\<exists>path. u = ''https://usher.ttvnw.net/'' @ path)"
  unfolding usher_rx_def test_Bol_ex
  by (simp add: in_cat_Cons in_cat_Nil in_lit del: run.simps run_cat_Cons run_cat_Nil)





section \<open>The ad-block rule\<close>







section \<open>The message on tab load\<close>

lemma sendOfflineMessage_sent_target:
  "sent (sendOfflineMessage e (Some \<lparr>tabId = tab, url = u\<rparr>) st) =
     sent st @
       (if \<not> test False twitch_rx u then []
        else if delivers e tab then [(tab, offline_payload, 0)]
        else [(tab, offline_payload, 0), (tab, offline_payload, 500)])"
  by (simp add: sendOfflineMessage_def Let_def)

text \<open>
  C10, as stated, fails for the usher host: the listener lets a usher URL through
  (\<open>isTwitchNavigation\<close>), but \<open>sendOfflineMessage\<close> returns before sending when the URL of
  its context is not a Twitch page.
\<close>

theorem tab_load_usher_counterexample:
  "isTwitchNavigation ''https://usher.ttvnw.net/vod/1.m3u8'' \<and>
   lastRelayOnline (init\<lparr>lastRelayOnline := Some False\<rparr>) = Some False \<and>
   sent (onTabUpdated (world relay_down) 7 (Some ''complete'')
           (Some ''https://usher.ttvnw.net/vod/1.m3u8'')
           (init\<lparr>lastRelayOnline := Some False\<rparr>)) = []"
proof -
  have u: "test False usher_rx ''https://usher.ttvnw.net/vod/1.m3u8''"
    by code_simp
  have t: "\<not> test False twitch_rx ''https://usher.ttvnw.net/vod/1.m3u8''"
    by code_simp
  from u t show ?thesis
    by (simp add: isTwitchNavigation_def onTabUpdated_def sendOfflineMessage_sent_target
          init_def)
qed

text \<open>
  C10, amended. Beyond the notification at the transition, the offline message is sent
  again on tab load: when a tab finishes loading (status \<open>complete\<close>) a Twitch page, that
  is a URL \<open>https://twitch.tv/...\<close> or \<open>https://<label>.twitch.tv/...\<close>, while the held
  state \<open>lastRelayOnline\<close> is false, the fixed offline payload is sent to that tab, and
  once more 500 ms later when the first delivery fails. Neither the held state nor a
  rule changes. For a tab that finishes loading any other URL, a usher URL included,
  nothing is sent.
\<close>

theorem tab_load_resends_offline_message:
  assumes "lastRelayOnline st = Some False"
  shows "(test False twitch_rx u \<longrightarrow>
            sent (onTabUpdated e tab (Some ''complete'') (Some u) st) =
              sent st @ (if delivers e tab then [(tab, offline_payload, 0)]
                         else [(tab, offline_payload, 0), (tab, offline_payload, 500)])) \<and>
         (\<not> test False twitch_rx u \<longrightarrow>
            sent (onTabUpdated e tab (Some ''complete'') (Some u) st) = sent st) \<and>
         (test False twitch_rx u \<longleftrightarrow>
            (\<exists>sub path. u = twitch_url sub path \<and>
               (sub = [] \<or> (\<exists>l. is_label l \<and> sub = l @ ''.'')))) \<and>
         (status \<noteq> Some ''complete'' \<longrightarrow> onTabUpdated e tab status tabUrl st = st) \<and>
         lastRelayOnline (onTabUpdated e tab status tabUrl st) = lastRelayOnline st \<and>
         dynamicRules (onTabUpdated e tab status tabUrl st) = dynamicRules st \<and>
         sessionRules (onTabUpdated e tab status tabUrl st) = sessionRules st"
proof -
  have 1: "sent (onTabUpdated e tab (Some ''complete'') (Some u) st) =
      sent st @ (if delivers e tab then [(tab, offline_payload, 0)]
                 else [(tab, offline_payload, 0), (tab, offline_payload, 500)])"
    if "test False twitch_rx u"
    using that assms
    by (simp add: onTabUpdated_def isTwitchNavigation_def sendOfflineMessage_sent_target)
  have 2: "sent (onTabUpdated e tab (Some ''complete'') (Some u) st) = sent st"
    if "\<not> test False twitch_rx u"
    using that assms
    by (simp add: onTabUpdated_def isTwitchNavigation_def sendOfflineMessage_sent_target)
  have 3: "lastRelayOnline (onTabUpdated e tab status tabUrl st) = lastRelayOnline st"
    "dynamicRules (onTabUpdated e tab status tabUrl st) = dynamicRules st"
    "sessionRules (onTabUpdated e tab status tabUrl st) = sessionRules st"
    by (simp_all add: onTabUpdated_def Let_def)
  have 4: "onTabUpdated e tab status tabUrl st = st" if "status \<noteq> Some ''complete''"
    using that by (simp add: onTabUpdated_def)
  from 1 2 3 4 test_twitch_rx [of u] show ?thesis by blast
qed

theorem tab_load_resends_offline_message_witness:
  "lastRelayOnline (init\<lparr>lastRelayOnline := Some False\<rparr>) = Some False \<and>
   test False twitch_rx ''https://www.twitch.tv/somechannel'' \<and>
   sent (onTabUpdated (world relay_down) 7 (Some ''complete'')
           (Some ''https://www.twitch.tv/somechannel'')
           (init\<lparr>lastRelayOnline := Some False\<rparr>)) = [(7, offline_payload, 0)]"
proof -
  have h: "lastRelayOnline (init\<lparr>lastRelayOnline := Some False\<rparr>) = Some False"
    by simp
  have t: "test False twitch_rx ''https://www.twitch.tv/somechannel''"
    by code_simp
  from tab_load_resends_offline_message
    [OF h, of "''https://www.twitch.tv/somechannel''" "world relay_down" 7] h t
  show ?thesis by (simp add: world_def init_def)
qed

section \<open>The playlist patterns\<close>

lemma in_Grp_Plus:
  "(p', s', g') \<in> set (run ci (Grp i (Plus a)) (p, s, g)) \<longleftrightarrow>
     (\<exists>w. s = w @ s' \<and> w \<noteq> [] \<and> (\<forall>c\<in>set w. atom_ok ci a c) \<and> p' = p + length w \<and>
          g' = (i, w) # g)"
proof
  assume "(p', s', g') \<in> set (run ci (Grp i (Plus a)) (p, s, g))"
  then obtain g0 where m: "(p', s', g0) \<in> set (run ci (Plus a) (p, s, g))"
    and g': "g' = (i, take (p' - p) s) # g0"
    by auto
  from m obtain w where w: "s = w @ s'" "w \<noteq> []" "\<forall>c\<in>set w. atom_ok ci a c"
    "p' = p + length w" "g0 = g"
    unfolding in_Plus by blast
  from w(1,4) have "take (p' - p) s = w" by simp
  with w g' show "\<exists>w. s = w @ s' \<and> w \<noteq> [] \<and> (\<forall>c\<in>set w. atom_ok ci a c) \<and>
      p' = p + length w \<and> g' = (i, w) # g"
    by blast
next
  assume "\<exists>w. s = w @ s' \<and> w \<noteq> [] \<and> (\<forall>c\<in>set w. atom_ok ci a c) \<and> p' = p + length w \<and>
      g' = (i, w) # g"
  then obtain w where w: "s = w @ s'" "w \<noteq> []" "\<forall>c\<in>set w. atom_ok ci a c"
    "p' = p + length w" "g' = (i, w) # g"
    by blast
  then have m: "(p', s', g) \<in> set (run ci (Plus a) (p, s, g))"
    unfolding in_Plus by blast
  from w(1,4) have t: "take (p' - p) s = w" by simp
  have "(p', s', g') = (\<lambda>(p', s', g'). (p', s', (i, take (p' - p) s) # g')) (p', s', g)"
    using w(5) t by simp
  from this m show "(p', s', g') \<in> set (run ci (Grp i (Plus a)) (p, s, g))"
    unfolding run.simps(7) set_map by (rule image_eqI)
qed

lemma in_id:
  "(p', s', g') \<in> set (run ci (Grp i (Plus (NoneOf ''/?''))) (p, s, g)) \<longleftrightarrow>
     (\<exists>w. is_id w \<and> s = w @ s' \<and> p' = p + length w \<and> g' = (i, w) # g)"
proof -
  have "(w \<noteq> [] \<and> (\<forall>c\<in>set w. atom_ok ci (NoneOf ''/?'') c)) = is_id w" for w
    by (auto simp: is_id_def)
  then show ?thesis
    unfolding in_Grp_Plus by (metis (no_types))
qed

lemma in_query:
  "(p', s', g') \<in> set (run ci (Opt (Grp i (cat [lit ''?'', Star Dot]))) (p, s, g)) \<longleftrightarrow>
     (p' = p \<and> s' = s \<and> g' = g) \<or>
     (\<exists>q. q \<noteq> [] \<and> is_query q \<and> s = q @ s' \<and> p' = p + length q \<and> g' = (i, q) # g)"
proof -
  have inner: "(p', s', g0) \<in> set (run ci (cat [lit ''?'', Star Dot]) (p, s, g)) \<longleftrightarrow>
      (\<exists>t. s = ''?'' @ t @ s' \<and> CHR 0x0A \<notin> set t \<and> p' = p + length t + 1 \<and> g0 = g)" for g0
    by (auto simp: in_cat_Cons in_cat_Nil in_lit in_Star
          simp del: run.simps run_cat_Cons run_cat_Nil)
  have "(p', s', g') \<in> set (run ci (Grp i (cat [lit ''?'', Star Dot])) (p, s, g)) \<longleftrightarrow>
      (\<exists>q. q \<noteq> [] \<and> is_query q \<and> s = q @ s' \<and> p' = p + length q \<and> g' = (i, q) # g)"
    (is "?L \<longleftrightarrow> ?R")
  proof
    assume ?L
    then obtain t where t: "s = ''?'' @ t @ s'" "CHR 0x0A \<notin> set t" "p' = p + length t + 1"
      "g' = (i, take (p' - p) s) # g"
      unfolding in_Grp inner by blast
    let ?q = "''?'' @ t"
    have "?q \<noteq> [] \<and> is_query ?q \<and> s = ?q @ s' \<and> p' = p + length ?q \<and> g' = (i, ?q) # g"
      using t by (simp add: is_query_def)
    then show ?R by blast
  next
    assume ?R
    then obtain q where q: "q \<noteq> []" "is_query q" "s = q @ s'" "p' = p + length q"
      "g' = (i, q) # g" by blast
    from q(1,2) obtain t where t: "q = ''?'' @ t" "CHR 0x0A \<notin> set t"
      by (cases q) (auto simp: is_query_def)
    have "s = ''?'' @ t @ s' \<and> CHR 0x0A \<notin> set t \<and> p' = p + length t + 1 \<and>
        g' = (i, take (p' - p) s) # g"
      using q t by simp
    then show ?L unfolding in_Grp inner by blast
  qed
  then show ?thesis
    unfolding in_Opt [of "(p', s', g')"] by auto
qed

text \<open>
  The states in which a match of \<open>^P([^/?]+)E(\?.*)?$\<close> can end, for literals \<open>P\<close> and
  \<open>E\<close>: the URL is a text equal to \<open>P\<close> up to the case the matcher ignores, an
  identifier, a text equal to \<open>E\<close> in the same sense, and a query.
\<close>

lemma hls_prefix_states:
  "(p1, s1, g1) \<in> set (run ci (cat [lit P, Grp 1 (Plus (NoneOf ''/?'')), lit E])
       (0, u, [])) \<longleftrightarrow>
   (\<exists>pre w ext. is_id w \<and> same_text ci pre P \<and> same_text ci ext E \<and>
        u = pre @ w @ ext @ s1 \<and> p1 = length P + length w + length E \<and> g1 = [(1, w)])"
  by (auto simp: in_cat_Cons in_cat_Nil in_lit in_id
        simp del: run.simps run_cat_Cons run_cat_Nil)

lemma hls_states:
  "(p', s', g') \<in> set (run ci (cat [lit P, Grp 1 (Plus (NoneOf ''/?'')), lit E,
         Opt (Grp 2 (cat [lit ''?'', Star Dot])), Eol]) (0, u, [])) \<longleftrightarrow>
   s' = [] \<and> p' = length u \<and>
   (\<exists>pre w ext q. is_id w \<and> is_query q \<and> same_text ci pre P \<and> same_text ci ext E \<and>
      u = pre @ w @ ext @ q \<and> g' = (if q = [] then [(1, w)] else [(2, q), (1, w)]))"
  (is "?L \<longleftrightarrow> ?R")
proof -
  have tail: "(p', s', g') \<in> set (run ci (cat [Opt (Grp 2 (cat [lit ''?'', Star Dot])), Eol])
        (p, s, g)) \<longleftrightarrow>
      s' = [] \<and> (p', [], g') \<in> set (run ci (Opt (Grp 2 (cat [lit ''?'', Star Dot]))) (p, s, g))"
    for p s g
    by (auto simp: in_cat_Cons in_cat_Nil in_Eol simp del: run.simps run_cat_Cons run_cat_Nil)
  have "?L \<longleftrightarrow> (p', s', g') \<in> set (run ci
      (cat ([lit P, Grp 1 (Plus (NoneOf ''/?'')), lit E] @
            [Opt (Grp 2 (cat [lit ''?'', Star Dot])), Eol])) (0, u, []))"
    by (simp del: run.simps run_cat_Cons run_cat_Nil)
  also have "\<dots> \<longleftrightarrow> s' = [] \<and>
      (\<exists>pre w ext s1. is_id w \<and> same_text ci pre P \<and> same_text ci ext E \<and>
         u = pre @ w @ ext @ s1 \<and>
         (p', [], g') \<in> set (run ci (Opt (Grp 2 (cat [lit ''?'', Star Dot])))
            (length P + length w + length E, s1, [(1, w)])))"
    unfolding in_cat_append hls_prefix_states tail by blast
  finally have step: "?L \<longleftrightarrow> s' = [] \<and>
      (\<exists>pre w ext s1. is_id w \<and> same_text ci pre P \<and> same_text ci ext E \<and>
         u = pre @ w @ ext @ s1 \<and>
         (p', [], g') \<in> set (run ci (Opt (Grp 2 (cat [lit ''?'', Star Dot])))
            (length P + length w + length E, s1, [(1, w)])))" .
  show ?thesis
  proof
    assume ?L
    then obtain pre w ext s1 where w: "s' = []" "is_id w" "same_text ci pre P"
      "same_text ci ext E" "u = pre @ w @ ext @ s1"
      and opt: "(p', [], g') \<in> set (run ci (Opt (Grp 2 (cat [lit ''?'', Star Dot])))
        (length P + length w + length E, s1, [(1, w)]))"
      unfolding step by blast
    have len: "length pre = length P" "length ext = length E"
      using w(3,4) by (simp_all add: same_text_length)
    from opt [unfolded in_query] show ?R
    proof
      assume "p' = length P + length w + length E \<and> [] = s1 \<and> g' = [(1, w)]"
      with w len have "is_id w \<and> is_query [] \<and> same_text ci pre P \<and> same_text ci ext E \<and>
          u = pre @ w @ ext @ [] \<and>
          g' = (if [] = ([]::string) then [(1, w)] else [(2, []), (1, w)])"
        and "s' = [] \<and> p' = length u"
        by (simp_all add: is_query_def)
      then show ?R by blast
    next
      assume "\<exists>q. q \<noteq> [] \<and> is_query q \<and> s1 = q @ [] \<and>
          p' = length P + length w + length E + length q \<and> g' = [(2, q), (1, w)]"
      then obtain q where q: "q \<noteq> []" "is_query q" "s1 = q @ []"
        "p' = length P + length w + length E + length q" "g' = [(2, q), (1, w)]" by blast
      with w len have "is_id w \<and> is_query q \<and> same_text ci pre P \<and> same_text ci ext E \<and>
          u = pre @ w @ ext @ q \<and> g' = (if q = [] then [(1, w)] else [(2, q), (1, w)])"
        and "s' = [] \<and> p' = length u"
        by simp_all
      then show ?R by blast
    qed
  next
    assume ?R
    then obtain pre w ext q where r: "s' = []" "p' = length u" "is_id w" "is_query q"
      "same_text ci pre P" "same_text ci ext E" "u = pre @ w @ ext @ q"
      "g' = (if q = [] then [(1, w)] else [(2, q), (1, w)])"
      by blast
    have len: "length pre = length P" "length ext = length E"
      using r(5,6) by (simp_all add: same_text_length)
    have "(p', [], g') \<in> set (run ci (Opt (Grp 2 (cat [lit ''?'', Star Dot])))
          (length P + length w + length E, q, [(1, w)]))"
      unfolding in_query using r len by (cases "q = []") auto
    with r(1,3,5,6,7) show ?L unfolding step by blast
  qed
qed

text \<open>An identifier and a query are read off a playlist URL in one way only.\<close>

lemma hls_split:
  assumes "is_id w" "is_query q" "CHR ''?'' \<notin> set ext"
  shows "takeWhile (\<lambda>c. c \<noteq> CHR ''?'') (w @ ext @ q) = w @ ext"
proof -
  have 1: "\<forall>c\<in>set (w @ ext). c \<noteq> CHR ''?''"
    using assms(1,3) by (auto simp: is_id_def)
  have 2: "takeWhile (\<lambda>c. c \<noteq> CHR ''?'') q = []"
    using assms(2) by (cases q) (auto simp: is_query_def)
  have "takeWhile (\<lambda>c. c \<noteq> CHR ''?'') ((w @ ext) @ q) =
      (w @ ext) @ takeWhile (\<lambda>c. c \<noteq> CHR ''?'') q"
    by (rule takeWhile_append2) (use 1 in blast)
  with 2 show ?thesis by simp
qed

lemma same_text_no_question:
  assumes "same_text ci ext E" "CHR ''?'' \<notin> set E"
  shows "CHR ''?'' \<notin> set ext"
proof (rule same_text_not_mem [OF assms(1)])
  show "norm_ch ci (CHR ''?'') \<notin> set (map (norm_ch ci) E)"
  proof
    assume "norm_ch ci (CHR ''?'') \<in> set (map (norm_ch ci) E)"
    then obtain x where x: "x \<in> set E" "CHR ''?'' = norm_ch ci x" by auto
    from x(2) have "norm_ch ci x = CHR ''?''" by (rule sym)
    then have "x = CHR ''?''" by simp
    with x(1) assms(2) show False by simp
  qed
qed

lemma hls_unique:
  assumes "is_id w" "is_query q" "is_id w'" "is_query q'"
    and "same_text ci pre P" "same_text ci pre' P"
    and "same_text ci ext E" "same_text ci ext' E" "CHR ''?'' \<notin> set E"
    and "pre @ w @ ext @ q = pre' @ w' @ ext' @ q'"
  shows "pre = pre' \<and> w = w' \<and> ext = ext' \<and> q = q'"
proof -
  have "length pre = length pre'"
    using assms(5,6) by (simp add: same_text_length)
  with assms(10) have pre: "pre = pre'" and eq: "w @ ext @ q = w' @ ext' @ q'" by simp_all
  have nq: "CHR ''?'' \<notin> set ext" "CHR ''?'' \<notin> set ext'"
    using assms(7,8,9) by (simp_all add: same_text_no_question)
  from eq have "takeWhile (\<lambda>c. c \<noteq> CHR ''?'') (w @ ext @ q) =
      takeWhile (\<lambda>c. c \<noteq> CHR ''?'') (w' @ ext' @ q')" by simp
  then have we: "w @ ext = w' @ ext'"
    by (simp only: hls_split [OF assms(1,2) nq(1)] hls_split [OF assms(3,4) nq(2)])
  have "length ext = length ext'"
    using assms(7,8) by (simp add: same_text_length)
  with we have w: "w = w'" "ext = ext'" by simp_all
  with eq pre show ?thesis by simp
qed

lemma exec_hls:
  assumes "is_id w" "is_query q" "same_text ci pre P" "same_text ci ext E" "CHR ''?'' \<notin> set E"
  shows "exec ci (cat [Bol, lit P, Grp 1 (Plus (NoneOf ''/?'')), lit E,
           Opt (Grp 2 (cat [lit ''?'', Star Dot])), Eol]) (pre @ w @ ext @ q) =
         Some (0, length (pre @ w @ ext @ q), [],
               if q = [] then [(1, w)] else [(2, q), (1, w)])"
proof -
  let ?u = "pre @ w @ ext @ q"
  let ?rs = "[lit P, Grp 1 (Plus (NoneOf ''/?'')), lit E,
           Opt (Grp 2 (cat [lit ''?'', Star Dot])), Eol]"
  let ?m = "(length ?u, [], if q = [] then [(1, w)] else [(2, q), (1, w)])"
  have "?m \<in> set (run ci (cat ?rs) (0, ?u, []))"
    unfolding hls_states using assms(1-4) by blast
  then obtain m ms where ms: "run ci (cat ?rs) (0, ?u, []) = m # ms"
    by (cases "run ci (cat ?rs) (0, ?u, [])") auto
  obtain p' s' g' where m: "m = (p', s', g')" by (cases m)
  have "(p', s', g') \<in> set (run ci (cat ?rs) (0, ?u, []))"
    unfolding ms m [symmetric] by simp
  then obtain pre' w' ext' q' where m': "s' = []" "p' = length ?u" "is_id w'" "is_query q'"
    "same_text ci pre' P" "same_text ci ext' E"
    "?u = pre' @ w' @ ext' @ q'" "g' = (if q' = [] then [(1, w')] else [(2, q'), (1, w')])"
    unfolding hls_states by blast
  from hls_unique [OF assms(1,2) m'(3,4) assms(3) m'(5) assms(4) m'(6) assms(5) m'(7)]
  have "w = w'" "q = q'" by simp_all
  with m m' have "m = ?m" by simp
  then show ?thesis
    unfolding exec_Bol ms by simp
qed

lemma test_hls:
  "test ci (cat [Bol, lit P, Grp 1 (Plus (NoneOf ''/?'')), lit E,
           Opt (Grp 2 (cat [lit ''?'', Star Dot])), Eol]) u \<longleftrightarrow>
   (\<exists>pre w ext q. u = pre @ w @ ext @ q \<and> same_text ci pre P \<and> is_id w \<and>
      same_text ci ext E \<and> is_query q)"
  unfolding test_Bol_ex hls_states by blast

lemma test_hls_prefix:
  assumes "test ci (cat [Bol, lit P, Grp 1 (Plus (NoneOf ''/?'')), lit E,
           Opt (Grp 2 (cat [lit ''?'', Star Dot])), Eol]) u"
  shows "same_text ci (take (length P) u) P"
proof -
  from assms obtain pre w ext q where u: "u = pre @ w @ ext @ q" and p: "same_text ci pre P"
    unfolding test_hls by blast
  from p have "length pre = length P" by (rule same_text_length)
  with u have "take (length P) u = pre" by simp
  with p show ?thesis by simp
qed

section \<open>The substitution\<close>

lemma ngroups_cat: "ngroups (cat rs) = sum_list (map ngroups rs)"
  by (induction rs) (simp_all add: cat_def)

lemma ngroups_lit: "ngroups (lit w) = 0"
  by (induction w) (simp_all add: lit_def cat_def)

lemma ngroups_hls:
  "ngroups (cat [Bol, lit P, Grp 1 (Plus (NoneOf ''/?'')), lit E,
           Opt (Grp 2 (cat [lit ''?'', Star Dot])), Eol]) = 2"
  by (simp add: ngroups_cat ngroups_lit)

lemma rewrite_plain:
  "c \<noteq> CHR 0x5C \<Longrightarrow> rewrite k (c # t) gs = map_option (\<lambda>w. c # w) (rewrite k t gs)"
  by (cases t) simp_all

lemma rewrite_prefix:
  "CHR 0x5C \<notin> set b \<Longrightarrow> rewrite k (b @ t) gs = map_option (\<lambda>w. b @ w) (rewrite k t gs)"
proof (induction b)
  case Nil
  show ?case by (simp add: option.map_ident)
next
  case (Cons c b)
  then have c: "c \<noteq> CHR 0x5C"
    and ih: "rewrite k (b @ t) gs = map_option (\<lambda>w. b @ w) (rewrite k t gs)"
    by auto
  have "rewrite k ((c # b) @ t) gs = map_option (\<lambda>w. c # w) (rewrite k (b @ t) gs)"
    using c by (simp add: rewrite_plain del: rewrite.simps)
  then show ?case
    by (simp add: ih option.map_comp comp_def del: rewrite.simps)
qed

lemma rewrite_groups:
  "rewrite 2 [CHR 0x5C, CHR ''1'', CHR 0x5C, CHR ''2''] gs = Some (gs 1 @ gs 2)"
  by (simp add: digit_of_def)

lemma rewrite_template:
  assumes "CHR 0x5C \<notin> set b" "CHR 0x5C \<notin> set mid"
  shows "rewrite 2 (b @ mid @ [CHR 0x5C, CHR ''1'', CHR 0x5C, CHR ''2'']) gs =
           Some (b @ mid @ gs 1 @ gs 2)"
  using assms
  by (simp add: rewrite_prefix rewrite_groups del: rewrite.simps)

section \<open>The redirect rules\<close>

lemma redirect_hls:
  assumes "is_id w" "is_query q" "CHR 0x5C \<notin> set b" "CHR 0x5C \<notin> set mid"
    and "same_text (case_insensitive r) pre P" "same_text (case_insensitive r) ext E"
    and "CHR ''?'' \<notin> set E"
    and "rule_action r = Redirect (b @ mid @ [CHR 0x5C, CHR ''1'', CHR 0x5C, CHR ''2''])"
    and "regexFilter r = cat [Bol, lit P, Grp 1 (Plus (NoneOf ''/?'')), lit E,
           Opt (Grp 2 (cat [lit ''?'', Star Dot])), Eol]"
  shows "redirect_url r (pre @ w @ ext @ q) = Some (b @ mid @ w @ q)"
proof (cases "q = []")
  case True
  then show ?thesis
    unfolding redirect_url_def assms(8,9) exec_hls [OF assms(1,2,5,6,7)] ngroups_hls
    by (simp add: rewrite_template [OF assms(3,4)] group_def del: rewrite.simps)
next
  case False
  then show ?thesis
    unfolding redirect_url_def assms(8,9) exec_hls [OF assms(1,2,5,6,7)] ngroups_hls
    by (simp add: rewrite_template [OF assms(3,4)] group_def del: rewrite.simps)
qed

lemma redirect_case_insensitive [simp]:
  "case_insensitive (liveRedirect b)" "case_insensitive (vodRedirect b)"
  by (simp_all add: case_insensitive_def liveRedirect_def vodRedirect_def)

text \<open>
  C9, as stated, fails. The filters start with \<open>^https://\<close>: a playlist URL on the usher
  host with the scheme \<open>http\<close> is of the stated form and neither rule matches it. And
  the base address is pasted into the substitution string as it is, so a backslash in
  it is read as an escape: with the address \<open>h\1\<close> the live rule sends
  \<open>.../hls/abc.m3u8\<close> to \<open>http://habc/live/abc\<close>, which is not the normalized base
  followed by \<open>/live/abc\<close>.
\<close>

theorem redirect_rules_counterexample:
  "is_id ''123'' \<and> is_query [] \<and>
   list_all (\<lambda>r. \<not> url_matches r (''http://usher.ttvnw.net/vod/'' @ ''123'' @ ''.m3u8'' @ []))
     (buildRedirectSessionRules ''example.com:9595'') \<and>
   normalizeBase (Some (''h'' @ [CHR 0x5C, CHR ''1''])) = ''http://h'' @ [CHR 0x5C, CHR ''1''] \<and>
   redirect_url (hd (buildRedirectSessionRules (''h'' @ [CHR 0x5C, CHR ''1''])))
     (live_url ''abc'' []) = Some ''http://habc/live/abc''"
proof -
  let ?u = "''http://usher.ttvnw.net/vod/'' @ ''123'' @ ''.m3u8'' @ []"
  let ?a = "''h'' @ [CHR 0x5C, CHR ''1'']"
  have i: "is_id ''123''" "is_query []" "is_id ''abc''"
    by (simp_all add: is_id_def is_query_def)
  have "\<not> same_text True
      (take (length ''https://usher.ttvnw.net/api/channel/hls/'') ?u)
      ''https://usher.ttvnw.net/api/channel/hls/''"
    by code_simp
  then have l: "\<not> test True live_rx ?u"
    unfolding live_rx_def using test_hls_prefix by blast
  have "\<not> same_text True (take (length ''https://usher.ttvnw.net/vod/'') ?u)
      ''https://usher.ttvnw.net/vod/''"
    by code_simp
  then have v: "\<not> test True vod_rx ?u"
    unfolding vod_rx_def using test_hls_prefix by blast
  have 1: "list_all (\<lambda>r. \<not> url_matches r ?u) (buildRedirectSessionRules ''example.com:9595'')"
    using l v
    by (simp add: buildRedirectSessionRules_eq url_matches_def liveRedirect_def vodRedirect_def
          case_insensitive_def)
  have 2: "normalizeBase (Some ?a) = ''http://h'' @ [CHR 0x5C, CHR ''1'']"
    by (simp add: normalizeBase_Some endsWith_def)
  have q: "CHR ''?'' \<notin> set ''.m3u8''" by simp
  have e: "exec True live_rx (live_url ''abc'' []) =
      Some (0, length (live_url ''abc'' []), [], [(1, ''abc'')])"
    unfolding live_rx_def live_url_def
      exec_hls [OF i(3,2) same_text_refl same_text_refl q] by simp
  have n: "ngroups live_rx = 2"
    unfolding live_rx_def by (rule ngroups_hls)
  have 3: "redirect_url (hd (buildRedirectSessionRules ?a)) (live_url ''abc'' []) =
      Some ''http://habc/live/abc''"
    unfolding buildRedirectSessionRules_eq 2
    by (simp add: redirect_url_def liveRedirect_def case_insensitive_def e n group_def
          digit_of_def)
  from i(1,2) 1 2 3 show ?thesis by (simp only: simp_thms)
qed

text \<open>
  C9, amended. The two rules that are installed are built from the normalized base
  address and apply to requests of the types xmlhttprequest, media and other. The rules
  do not set \<open>isUrlFilterCaseSensitive\<close>, so the engine reads their filters without regard
  to the case of letters. The live rule matches exactly the URLs
  \<open>https://usher.ttvnw.net/api/channel/hls/<id>.m3u8[?query]\<close> and the vod rule exactly the
  URLs \<open>https://usher.ttvnw.net/vod/<id>.m3u8[?query]\<close>, where the scheme is https, the
  part before the identifier and the extension \<open>.m3u8\<close> may be written in either case,
  the identifier is non-empty and has no \<open>/\<close> and no \<open>?\<close>, and the query is a \<open>?\<close>
  followed by any characters but the line feed. When the normalized base contains no
  backslash, such a URL is rewritten to \<open><normalizedBase>/live/<id>[?query]\<close>,
  respectively \<open><normalizedBase>/vod/<id>[?query]\<close>, with the identifier and the query
  carried over as they are written in the URL by the groups 1 and 2.
\<close>

theorem redirect_rules_match_and_rewrite:
  "buildRedirectSessionRules a =
     [liveRedirect (normalizeBase (Some a)), vodRedirect (normalizeBase (Some a))] \<and>
   (url_matches (liveRedirect b) u \<longleftrightarrow>
      (\<exists>pre w ext q. u = pre @ w @ ext @ q \<and>
         same_text True pre ''https://usher.ttvnw.net/api/channel/hls/'' \<and> is_id w \<and>
         same_text True ext ''.m3u8'' \<and> is_query q)) \<and>
   (url_matches (vodRedirect b) u \<longleftrightarrow>
      (\<exists>pre w ext q. u = pre @ w @ ext @ q \<and>
         same_text True pre ''https://usher.ttvnw.net/vod/'' \<and> is_id w \<and>
         same_text True ext ''.m3u8'' \<and> is_query q)) \<and>
   (request_matches (liveRedirect b) u ty \<longleftrightarrow>
      url_matches (liveRedirect b) u \<and> ty \<in> {xmlhttprequest, media, other}) \<and>
   (request_matches (vodRedirect b) u ty \<longleftrightarrow>
      url_matches (vodRedirect b) u \<and> ty \<in> {xmlhttprequest, media, other}) \<and>
   (is_id w \<and> is_query q \<and> same_text True ext ''.m3u8'' \<and> CHR 0x5C \<notin> set b \<longrightarrow>
      (same_text True pre ''https://usher.ttvnw.net/api/channel/hls/'' \<longrightarrow>
         redirect_url (liveRedirect b) (pre @ w @ ext @ q) = Some (b @ ''/live/'' @ w @ q)) \<and>
      (same_text True pre ''https://usher.ttvnw.net/vod/'' \<longrightarrow>
         redirect_url (vodRedirect b) (pre @ w @ ext @ q) = Some (b @ ''/vod/'' @ w @ q)))"
proof -
  have 1: "url_matches (liveRedirect b) u \<longleftrightarrow>
      (\<exists>pre w ext q. u = pre @ w @ ext @ q \<and>
         same_text True pre ''https://usher.ttvnw.net/api/channel/hls/'' \<and> is_id w \<and>
         same_text True ext ''.m3u8'' \<and> is_query q)"
  proof -
    have "url_matches (liveRedirect b) u = test True live_rx u"
      by (simp add: url_matches_def) (simp add: liveRedirect_def)
    then show ?thesis
      unfolding live_rx_def by (simp only: test_hls)
  qed
  have 2: "url_matches (vodRedirect b) u \<longleftrightarrow>
      (\<exists>pre w ext q. u = pre @ w @ ext @ q \<and>
         same_text True pre ''https://usher.ttvnw.net/vod/'' \<and> is_id w \<and>
         same_text True ext ''.m3u8'' \<and> is_query q)"
  proof -
    have "url_matches (vodRedirect b) u = test True vod_rx u"
      by (simp add: url_matches_def) (simp add: vodRedirect_def)
    then show ?thesis
      unfolding vod_rx_def by (simp only: test_hls)
  qed
  have 3: "request_matches (liveRedirect b) u ty \<longleftrightarrow>
      url_matches (liveRedirect b) u \<and> ty \<in> {xmlhttprequest, media, other}"
    "request_matches (vodRedirect b) u ty \<longleftrightarrow>
      url_matches (vodRedirect b) u \<and> ty \<in> {xmlhttprequest, media, other}"
    by (auto simp: request_matches_def liveRedirect_def vodRedirect_def hls_types_def)
  have q: "CHR ''?'' \<notin> set ''.m3u8''" by simp
  have bs: "CHR 0x5C \<notin> set ''/live/''" "CHR 0x5C \<notin> set ''/vod/''" by simp_all
  have 4: "redirect_url (liveRedirect b) (pre @ w @ ext @ q) = Some (b @ ''/live/'' @ w @ q)"
    if "is_id w" "is_query q" "same_text True ext ''.m3u8''" "CHR 0x5C \<notin> set b"
      "same_text True pre ''https://usher.ttvnw.net/api/channel/hls/''"
  proof (rule redirect_hls [OF that(1,2,4) bs(1) _ _ q])
    show "same_text (case_insensitive (liveRedirect b)) pre
        ''https://usher.ttvnw.net/api/channel/hls/''"
      using that(5) by simp
    show "same_text (case_insensitive (liveRedirect b)) ext ''.m3u8''"
      using that(3) by simp
  qed (simp_all add: liveRedirect_def live_rx_def)
  have 5: "redirect_url (vodRedirect b) (pre @ w @ ext @ q) = Some (b @ ''/vod/'' @ w @ q)"
    if "is_id w" "is_query q" "same_text True ext ''.m3u8''" "CHR 0x5C \<notin> set b"
      "same_text True pre ''https://usher.ttvnw.net/vod/''"
  proof (rule redirect_hls [OF that(1,2,4) bs(2) _ _ q])
    show "same_text (case_insensitive (vodRedirect b)) pre ''https://usher.ttvnw.net/vod/''"
      using that(5) by simp
    show "same_text (case_insensitive (vodRedirect b)) ext ''.m3u8''"
      using that(3) by simp
  qed (simp_all add: vodRedirect_def vod_rx_def)
  from 1 2 3 4 5 buildRedirectSessionRules_eq [of a] show ?thesis by blast
qed

theorem redirect_rules_match_and_rewrite_witness:
  "is_id ''abc'' \<and> is_query ''?x=1'' \<and> same_text True ''.M3U8'' ''.m3u8'' \<and>
   CHR 0x5C \<notin> set ''http://example.com:9595'' \<and>
   same_text True ''https://Usher.ttvnw.net/api/channel/hls/''
     ''https://usher.ttvnw.net/api/channel/hls/'' \<and>
   normalizeBase (Some ''example.com:9595'') = ''http://example.com:9595'' \<and>
   redirect_url (liveRedirect ''http://example.com:9595'')
     (''https://Usher.ttvnw.net/api/channel/hls/'' @ ''abc'' @ ''.M3U8'' @ ''?x=1'') =
     Some (''http://example.com:9595'' @ ''/live/'' @ ''abc'' @ ''?x=1'')"
proof -
  have h: "is_id ''abc''" "is_query ''?x=1''" "CHR 0x5C \<notin> set ''http://example.com:9595''"
    by (simp_all add: is_id_def is_query_def)
  have c: "same_text True ''.M3U8'' ''.m3u8''"
    "same_text True ''https://Usher.ttvnw.net/api/channel/hls/''
       ''https://usher.ttvnw.net/api/channel/hls/''"
    by code_simp+
  have n: "normalizeBase (Some ''example.com:9595'') = ''http://example.com:9595''"
    by (simp add: normalizeBase_Some endsWith_def)
  from redirect_rules_match_and_rewrite
    [of _ "''http://example.com:9595''" _ _ "''abc''" "''?x=1''" "''.M3U8''"
       "''https://Usher.ttvnw.net/api/channel/hls/''"] h c n
  show ?thesis by blast
qed

section \<open>The expressions as they are written in the source\<close>

lemma show_lit: "show_rx (lit w) = concat (map (\<lambda>c. show_atom (Lit c)) w)"
  by (induction w) (simp_all add: lit_def cat_def)

lemma show_cat: "show_rx (cat rs) = concat (map show_rx rs)"
  by (induction rs) (simp_all add: cat_def)

lemma source_text_of_filters:
  "show_rx live_rx =
     ''^https://usher'' @ [CHR 0x5C] @ ''.ttvnw'' @ [CHR 0x5C] @ ''.net/api/channel/hls/([^/?]+)'' @
     [CHR 0x5C] @ ''.m3u8('' @ [CHR 0x5C] @ ''?.*)?$''"
  "show_rx vod_rx =
     ''^https://usher'' @ [CHR 0x5C] @ ''.ttvnw'' @ [CHR 0x5C] @ ''.net/vod/([^/?]+)'' @
     [CHR 0x5C] @ ''.m3u8('' @ [CHR 0x5C] @ ''?.*)?$''"
  "show_rx ads_rx =
     ''^https?://([^.]+'' @ [CHR 0x5C] @ ''.)?amazon-adsystem'' @ [CHR 0x5C] @ ''.com/.*''"
  "show_rx twitch_rx = ''^https://([^.]+'' @ [CHR 0x5C] @ ''.)?twitch'' @ [CHR 0x5C] @ ''.tv/''"
  "show_rx usher_rx = ''^https://usher'' @ [CHR 0x5C] @ ''.ttvnw'' @ [CHR 0x5C] @ ''.net/''"
  "show_rx scheme_rx = ''^https?:''"
  by (simp_all add: live_rx_def vod_rx_def ads_rx_def twitch_rx_def usher_rx_def scheme_rx_def
        show_cat show_lit specials_def)

end
